theory Spec2Isabelle
  imports Main "HOL-Library.Word"
begin

unbundle bit_operations_syntax

section \<open>Vulkan shared memory: data model\<close>

text \<open>
  A shallow embedding of \<^verbatim>\<open>src/xenia/gpu/vulkan/vulkan_shared_memory.cc\<close>.
  Machine integers are words of their C++ width, so every shift, addition and
  subtraction wraps as it does in the source.
\<close>

type_synonym u32 = "32 word"
type_synonym u64 = "64 word"

text \<open>The closed usage enumeration of the class (\<^verbatim>\<open>VulkanSharedMemory::Usage\<close>).\<close>

datatype Usage = kRead | kComputeWrite | kTransferDestination | kGuestDrawReadWrite

subsection \<open>Constants of the Vulkan API\<close>

text \<open>
  The flag bits below are the values that \<^verbatim>\<open>vulkan_core.h\<close> of the Vulkan API gives
  to the names the source uses.
\<close>

definition VK_PIPELINE_STAGE_VERTEX_INPUT_BIT :: u32 where
  "VK_PIPELINE_STAGE_VERTEX_INPUT_BIT = 0x4"

definition VK_PIPELINE_STAGE_VERTEX_SHADER_BIT :: u32 where
  "VK_PIPELINE_STAGE_VERTEX_SHADER_BIT = 0x8"

definition VK_PIPELINE_STAGE_TESSELLATION_EVALUATION_SHADER_BIT :: u32 where
  "VK_PIPELINE_STAGE_TESSELLATION_EVALUATION_SHADER_BIT = 0x20"

definition VK_PIPELINE_STAGE_FRAGMENT_SHADER_BIT :: u32 where
  "VK_PIPELINE_STAGE_FRAGMENT_SHADER_BIT = 0x80"

definition VK_PIPELINE_STAGE_COMPUTE_SHADER_BIT :: u32 where
  "VK_PIPELINE_STAGE_COMPUTE_SHADER_BIT = 0x800"

definition VK_PIPELINE_STAGE_TRANSFER_BIT :: u32 where
  "VK_PIPELINE_STAGE_TRANSFER_BIT = 0x1000"

definition VK_ACCESS_INDEX_READ_BIT :: u32 where
  "VK_ACCESS_INDEX_READ_BIT = 0x2"

definition VK_ACCESS_SHADER_READ_BIT :: u32 where
  "VK_ACCESS_SHADER_READ_BIT = 0x20"

definition VK_ACCESS_SHADER_WRITE_BIT :: u32 where
  "VK_ACCESS_SHADER_WRITE_BIT = 0x40"

definition VK_ACCESS_TRANSFER_READ_BIT :: u32 where
  "VK_ACCESS_TRANSFER_READ_BIT = 0x800"

definition VK_ACCESS_TRANSFER_WRITE_BIT :: u32 where
  "VK_ACCESS_TRANSFER_WRITE_BIT = 0x1000"

definition VK_BUFFER_CREATE_SPARSE_BINDING_BIT :: u32 where
  "VK_BUFFER_CREATE_SPARSE_BINDING_BIT = 0x1"

definition VK_BUFFER_CREATE_SPARSE_RESIDENCY_BIT :: u32 where
  "VK_BUFFER_CREATE_SPARSE_RESIDENCY_BIT = 0x2"

definition VK_BUFFER_USAGE_TRANSFER_SRC_BIT :: u32 where
  "VK_BUFFER_USAGE_TRANSFER_SRC_BIT = 0x1"

definition VK_BUFFER_USAGE_TRANSFER_DST_BIT :: u32 where
  "VK_BUFFER_USAGE_TRANSFER_DST_BIT = 0x2"

definition VK_BUFFER_USAGE_STORAGE_BUFFER_BIT :: u32 where
  "VK_BUFFER_USAGE_STORAGE_BUFFER_BIT = 0x20"

definition VK_BUFFER_USAGE_INDEX_BUFFER_BIT :: u32 where
  "VK_BUFFER_USAGE_INDEX_BUFFER_BIT = 0x40"

definition VK_QUEUE_FAMILY_IGNORED :: u32 where
  "VK_QUEUE_FAMILY_IGNORED = - 1"

definition VK_WHOLE_SIZE :: u64 where
  "VK_WHOLE_SIZE = - 1"

definition VK_NULL_HANDLE :: u64 where
  "VK_NULL_HANDLE = 0"

definition VK_SUCCESS :: u32 where
  "VK_SUCCESS = 0"

definition nullptr :: u64 where
  "nullptr = 0"

subsection \<open>Structures\<close>

text \<open>\<^verbatim>\<open>VkBufferCopy\<close>: one region of a buffer-to-buffer copy.\<close>

record VkBufferCopy =
  srcOffset :: u64
  dstOffset :: u64
  copy_size :: u64

text \<open>
  \<^verbatim>\<open>VkBufferMemoryBarrier\<close>, with the fields that \<^verbatim>\<open>Use\<close> fills in
  (\<^verbatim>\<open>sType\<close> and \<^verbatim>\<open>pNext\<close> are constant).
\<close>

record VkBufferMemoryBarrier =
  srcAccessMask :: u32
  dstAccessMask :: u32
  srcQueueFamilyIndex :: u32
  dstQueueFamilyIndex :: u32
  barrier_buffer :: u64
  barrier_offset :: u64
  barrier_size :: u64

text \<open>
  What one call of the staging pool's \<^verbatim>\<open>RequestPartial\<close> hands back: the returned
  host pointer (null on failure) and the three output parameters.
\<close>

record upload_alloc =
  upload_buffer_mapping :: u64
  upload_buffer :: u64
  upload_buffer_offset :: u64
  upload_buffer_size :: u64

text \<open>
  Every call the class makes on a collaborator (the Vulkan device, the deferred
  command buffer, the trace writer, the staging pool, the base class) is recorded,
  in program order, as one event.
\<close>

datatype event =
    CallInitializeCommon
  | CallShutdownCommon
  | VkCreateBuffer u32 u64 u32
  | VkGetBufferMemoryRequirements u64
  | VkAllocateMemory u64 u32
  | VkBindBufferMemory u64 u64 u64
  | VkDestroyBuffer u64
  | VkFreeMemory u64
  | CmdVkPipelineBarrier u32 u32 VkBufferMemoryBarrier
  | CmdVkCopyBuffer u64 u64 "VkBufferCopy list"
  | WriteMemoryRead u32 u32
  | CallRequestPartial u64 u64 u64 upload_alloc
  | MakeRangeValid u32 u32 bool
  | Memcpy u64 u32 u64

text \<open>
  The collaborators, as parameters of the model. The staging pool is a state
  machine of an arbitrary state type \<open>'p\<close>: a request takes the pool's state, the
  submission number, the size and the alignment, and returns what the pool hands
  back together with the pool's next state. The Vulkan driver answers each call
  with a result code and the handle it writes through the output pointer.
  \<open>kBufferSize\<close> and \<open>page_size_log2\<close> come from the base class
  \<^verbatim>\<open>SharedMemory\<close>; \<open>asserts_enabled\<close> says whether the build keeps
  \<^verbatim>\<open>assert_true\<close> (a debug build) or compiles it out.
\<close>

record 'p env =
  kBufferSize :: u32
  page_size_log2 :: nat
  asserts_enabled :: bool
  tessellationShader :: bool
  memory_types_device_local :: u32
  vkCreateBuffer :: "u32 \<Rightarrow> u64 \<Rightarrow> u32 \<Rightarrow> u32 \<times> u64"
  vkGetBufferMemoryRequirements :: "u64 \<Rightarrow> u64 \<times> u32"
  vkAllocateMemory :: "u64 \<Rightarrow> u32 \<Rightarrow> u32 \<times> u64"
  vkBindBufferMemory :: "u64 \<Rightarrow> u64 \<Rightarrow> u64 \<Rightarrow> u32"
  new_upload_buffer_pool :: 'p
  RequestPartial :: "'p \<Rightarrow> u64 \<Rightarrow> u64 \<Rightarrow> u64 \<Rightarrow> upload_alloc \<times> 'p"
  GetCurrentSubmission :: u64

text \<open>The members of \<^verbatim>\<open>VulkanSharedMemory\<close> (named as in the source, without the
  trailing underscore), and the events recorded so far.\<close>

record 'p vsm =
  buffer :: u64
  buffer_memory_type :: u32
  buffer_memory :: "u64 list"
  buffer_memory_allocated :: "u64 list"
  upload_buffer_pool :: "'p option"
  last_usage :: Usage
  last_written_range :: "u32 \<times> u32"
  upload_regions :: "VkBufferCopy list"
  events :: "event list"

text \<open>The ways a call can end without returning.\<close>

datatype error = AssertionFailed | NullPointerDereference

section \<open>The usage and barrier tracker\<close>

text \<open>
  \<^verbatim>\<open>GetBarrier\<close> (lines 265-299). The first switch returns for the two write
  usages; the other usages fall through to the shared read masks and the second
  switch. The second switch's \<^verbatim>\<open>default\<close> (an \<^verbatim>\<open>assert_unhandled_case\<close>) is
  not reachable for a value of the closed enumeration: the two remaining
  constructors have already returned.
\<close>

definition GetBarrier :: "'p env \<Rightarrow> Usage \<Rightarrow> u32 \<times> u32" where
  "GetBarrier env usage =
     (case usage of
        kComputeWrite \<Rightarrow>
          (VK_PIPELINE_STAGE_COMPUTE_SHADER_BIT, VK_ACCESS_SHADER_READ_BIT)
      | kTransferDestination \<Rightarrow>
          (VK_PIPELINE_STAGE_TRANSFER_BIT, VK_ACCESS_TRANSFER_WRITE_BIT)
      | _ \<Rightarrow>
          (let stage_mask = VK_PIPELINE_STAGE_VERTEX_INPUT_BIT OR
                            VK_PIPELINE_STAGE_VERTEX_SHADER_BIT OR
                            VK_PIPELINE_STAGE_FRAGMENT_SHADER_BIT;
               stage_mask = (if tessellationShader env
                             then stage_mask OR
                                  VK_PIPELINE_STAGE_TESSELLATION_EVALUATION_SHADER_BIT
                             else stage_mask);
               access_mask = VK_ACCESS_INDEX_READ_BIT OR VK_ACCESS_SHADER_READ_BIT
           in (case usage of
                 kRead \<Rightarrow>
                   (stage_mask OR (VK_PIPELINE_STAGE_COMPUTE_SHADER_BIT OR
                                   VK_PIPELINE_STAGE_TRANSFER_BIT),
                    access_mask OR VK_ACCESS_TRANSFER_READ_BIT)
               | kGuestDrawReadWrite \<Rightarrow>
                   (stage_mask, access_mask OR VK_ACCESS_SHADER_WRITE_BIT)
               | _ \<Rightarrow> (stage_mask, access_mask))))"

text \<open>Lines 158-160 of \<^verbatim>\<open>Use\<close>: the written range, clipped to the buffer.\<close>

definition clip_written_range :: "'p env \<Rightarrow> u32 \<times> u32 \<Rightarrow> u32 \<times> u32" where
  "clip_written_range env written_range =
     (let first = min (fst written_range) (kBufferSize env);
          second = min (snd written_range) (kBufferSize env - first)
      in (first, second))"

text \<open>
  \<^verbatim>\<open>Use\<close> (lines 156-189). The written range is clipped to the buffer, the
  contract of a read is asserted, at most one pipeline barrier is recorded, and
  the clipped range is stored.
\<close>

definition Use :: "'p env \<Rightarrow> 'p vsm \<Rightarrow> Usage \<Rightarrow> u32 \<times> u32 \<Rightarrow> error + 'p vsm" where
  "Use env s usage written_range =
     (let written_range = clip_written_range env written_range
      in if asserts_enabled env \<and> \<not> (usage \<noteq> kRead \<or> snd written_range = 0)
         then Inl AssertionFailed
         else
           (let s =
              (if last_usage s \<noteq> usage \<or> snd (last_written_range s) \<noteq> 0 then
                 (let (stage_mask_src, access_src) = GetBarrier env (last_usage s);
                      (stage_mask_dst, access_dst) = GetBarrier env usage;
                      buffer_memory_barrier =
                        \<lparr>srcAccessMask = access_src,
                         dstAccessMask = access_dst,
                         srcQueueFamilyIndex = VK_QUEUE_FAMILY_IGNORED,
                         dstQueueFamilyIndex = VK_QUEUE_FAMILY_IGNORED,
                         barrier_buffer = buffer s,
                         barrier_offset = 0,
                         barrier_size = 0\<rparr>;
                      (buffer_memory_barrier, s) =
                        (if last_usage s = usage then
                           (buffer_memory_barrier
                              \<lparr>barrier_offset := ucast (fst (last_written_range s)),
                               barrier_size := ucast (snd (last_written_range s))\<rparr>,
                            s)
                         else
                           (buffer_memory_barrier
                              \<lparr>barrier_offset := 0,
                               barrier_size := VK_WHOLE_SIZE\<rparr>,
                            s\<lparr>last_usage := usage\<rparr>))
                  in s\<lparr>events := events s @
                       [CmdVkPipelineBarrier stage_mask_src stage_mask_dst
                          buffer_memory_barrier]\<rparr>)
               else s)
            in Inr (s\<lparr>last_written_range := written_range\<rparr>)))"

section \<open>Creation and teardown of the device buffer\<close>

text \<open>
  Modelled from the spec: \<^verbatim>\<open>ui::vulkan::util::DestroyAndNullHandle\<close> is a helper of the
  repository that is not among the sources. The spec has \<^verbatim>\<open>Shutdown\<close> destroy the
  buffer handle, never free twice and leave the handle cleared: a handle that is
  set is destroyed and then nulled, a null handle is left alone.
\<close>

definition DestroyAndNullHandle :: "'p vsm \<Rightarrow> 'p vsm" where
  "DestroyAndNullHandle s =
     (if buffer s \<noteq> VK_NULL_HANDLE
      then s\<lparr>events := events s @ [VkDestroyBuffer (buffer s)], buffer := VK_NULL_HANDLE\<rparr>
      else s)"

text \<open>
  Modelled from the spec: \<^verbatim>\<open>xe::bit_scan_forward\<close> is a helper of the repository that
  is not among the sources. The spec selects the first matching bit of the mask and
  has the absence of a match fail: the index of the lowest set bit, or nothing
  for a zero mask.
\<close>

definition bit_scan_forward :: "u32 \<Rightarrow> u32 option" where
  "bit_scan_forward v = map_option of_nat (List.find (bit v) [0..<32])"

text \<open>
  \<^verbatim>\<open>Shutdown\<close> (lines 124-148). The calls of \<^verbatim>\<open>vkFreeMemory\<close> are recorded in the
  order of the allocation list.
\<close>

definition Shutdown :: "'p vsm \<Rightarrow> bool \<Rightarrow> 'p vsm" where
  "Shutdown s from_destructor =
     (let s = s\<lparr>upload_buffer_pool := None\<rparr>;
          s = s\<lparr>last_written_range := (0, 0)\<rparr>;
          s = s\<lparr>last_usage := kTransferDestination\<rparr>;
          s = DestroyAndNullHandle s;
          s = s\<lparr>buffer_memory_allocated := []\<rparr>;
          s = s\<lparr>events := events s @ map VkFreeMemory (buffer_memory s)\<rparr>;
          s = s\<lparr>buffer_memory := []\<rparr>
      in if \<not> from_destructor then s\<lparr>events := events s @ [CallShutdownCommon]\<rparr> else s)"

text \<open>
  \<^verbatim>\<open>Initialize\<close> (lines 37-122). The creation flags are the constant 0 of line 49
  (sparse binding is a TODO of the source), so the retry of lines 64-68, which is
  guarded by the sparse flags being set, is kept as the source has it. The driver's
  answer to \<^verbatim>\<open>vkCreateBuffer\<close> carries the handle it stores through the output
  pointer, whatever the result code. What \<^verbatim>\<open>bit_scan_forward\<close> stores for a zero
  mask depends on the platform; the member is left as it was, and nothing below
  reads it.
\<close>

definition Initialize :: "'p env \<Rightarrow> 'p vsm \<Rightarrow> bool \<times> 'p vsm" where
  "Initialize env s =
     (let s = s\<lparr>events := events s @ [CallInitializeCommon]\<rparr>;
          flags = (0 :: u32);
          sparse_flags = VK_BUFFER_CREATE_SPARSE_BINDING_BIT OR
                         VK_BUFFER_CREATE_SPARSE_RESIDENCY_BIT;
          create_size = (ucast (kBufferSize env) :: u64);
          create_usage = VK_BUFFER_USAGE_TRANSFER_SRC_BIT OR VK_BUFFER_USAGE_TRANSFER_DST_BIT OR
                         VK_BUFFER_USAGE_STORAGE_BUFFER_BIT OR VK_BUFFER_USAGE_INDEX_BUFFER_BIT;
          (buffer_create_result, handle) = vkCreateBuffer env flags create_size create_usage;
          s = s\<lparr>events := events s @ [VkCreateBuffer flags create_size create_usage],
                buffer := handle\<rparr>;
          (buffer_create_result, flags, s) =
            (if buffer_create_result \<noteq> VK_SUCCESS then
               (if flags AND sparse_flags \<noteq> 0 then
                  (let flags = flags AND NOT sparse_flags;
                       (buffer_create_result, handle) =
                         vkCreateBuffer env flags create_size create_usage
                   in (buffer_create_result, flags,
                       s\<lparr>events := events s @ [VkCreateBuffer flags create_size create_usage],
                         buffer := handle\<rparr>))
                else (buffer_create_result, flags, s))
             else (buffer_create_result, flags, s));
          create_pool =
            (\<lambda>s. (True, s\<lparr>upload_buffer_pool := Some (new_upload_buffer_pool env)\<rparr>))
      in if buffer_create_result \<noteq> VK_SUCCESS then (False, Shutdown s False)
         else
           (let (requirements_size, memoryTypeBits) =
                  vkGetBufferMemoryRequirements env (buffer s);
                s = s\<lparr>events := events s @ [VkGetBufferMemoryRequirements (buffer s)]\<rparr>
            in case bit_scan_forward (memoryTypeBits AND memory_types_device_local env) of
                 None \<Rightarrow> (False, Shutdown s False)
               | Some memory_type \<Rightarrow>
                   (let s = s\<lparr>buffer_memory_type := memory_type\<rparr>
                    in if \<not> (flags AND sparse_flags \<noteq> 0) then
                         (let (allocate_result, memory) =
                                vkAllocateMemory env requirements_size (buffer_memory_type s);
                              s = s\<lparr>events := events s @
                                    [VkAllocateMemory requirements_size (buffer_memory_type s)]\<rparr>
                          in if allocate_result \<noteq> VK_SUCCESS then (False, Shutdown s False)
                             else
                               (let s = s\<lparr>buffer_memory := buffer_memory s @ [memory]\<rparr>;
                                    bind_result = vkBindBufferMemory env (buffer s) memory 0;
                                    s = s\<lparr>events := events s @
                                          [VkBindBufferMemory (buffer s) memory 0]\<rparr>
                                in if bind_result \<noteq> VK_SUCCESS then (False, Shutdown s False)
                                   else create_pool s))
                       else create_pool s)))"

section \<open>The upload scheduler\<close>

text \<open>
  One pass through the body of the \<^verbatim>\<open>while\<close> loop (lines 216-249). A pass either
  leaves the loop (the pool refused the request, so \<^verbatim>\<open>successful\<close> is false; or the
  call does not return at all), or it goes on with the new state, the new
  \<^verbatim>\<open>upload_buffer_previous\<close> and the rest of the range.
\<close>

datatype 'p chunk_step =
    Break "error + bool \<times> 'p vsm \<times> u64"
  | Continue "'p vsm" u64 u32 u32

definition upload_chunk :: "'p env \<Rightarrow> 'p vsm \<Rightarrow> u64 \<Rightarrow> u32 \<Rightarrow> u32 \<Rightarrow> 'p chunk_step" where
  "upload_chunk env s upload_buffer_previous upload_range_start upload_range_length =
     (case upload_buffer_pool s of
        None \<Rightarrow> Break (Inl NullPointerDereference)
      | Some pool \<Rightarrow>
          (let request_size =
                 (ucast (push_bit (page_size_log2 env) upload_range_length :: u32) :: u64);
               alignment = (push_bit (page_size_log2 env) 1 :: u64);
               (a, pool) =
                 RequestPartial env pool (GetCurrentSubmission env) request_size alignment;
               s = s\<lparr>upload_buffer_pool := Some pool,
                     events := events s @
                       [CallRequestPartial (GetCurrentSubmission env) request_size alignment a]\<rparr>
           in if upload_buffer_mapping a = nullptr then
                Break (Inr (False, s, upload_buffer_previous))
              else
                (let s = s\<lparr>events := events s @
                           [MakeRangeValid (push_bit (page_size_log2 env) upload_range_start)
                              (ucast (upload_buffer_size a)) False]\<rparr>;
                     s = s\<lparr>events := events s @
                           [Memcpy (upload_buffer_mapping a)
                              (push_bit (page_size_log2 env) upload_range_start)
                              (upload_buffer_size a)]\<rparr>;
                     flush = (upload_buffer_previous \<noteq> upload_buffer a \<and>
                              upload_regions s \<noteq> [])
                 in if flush \<and> asserts_enabled env \<and>
                       \<not> upload_buffer_previous \<noteq> VK_NULL_HANDLE
                    then Break (Inl AssertionFailed)
                    else
                      (let s = (if flush
                                then s\<lparr>events := events s @
                                         [CmdVkCopyBuffer upload_buffer_previous (buffer s)
                                            (upload_regions s)],
                                       upload_regions := []\<rparr>
                                else s);
                           upload_buffer_previous = upload_buffer a;
                           s = s\<lparr>upload_regions := upload_regions s @
                                 [\<lparr>srcOffset = upload_buffer_offset a,
                                   dstOffset =
                                     ucast (push_bit (page_size_log2 env) upload_range_start
                                              :: u32),
                                   copy_size = upload_buffer_size a\<rparr>]\<rparr>;
                           upload_buffer_pages =
                             (ucast (drop_bit (page_size_log2 env) (upload_buffer_size a))
                                :: u32)
                       in Continue s upload_buffer_previous
                            (upload_range_start + upload_buffer_pages)
                            (upload_range_length - upload_buffer_pages)))))"

text \<open>
  The \<^verbatim>\<open>while\<close> loop of lines 215-250, for one page range. It ends when the range
  is used up or when a pass leaves it; whether it ends at all is up to the sizes the
  pool grants, so not returning is the value \<open>None\<close>. The result is the flag
  \<^verbatim>\<open>successful\<close>, the state and \<^verbatim>\<open>upload_buffer_previous\<close>.
\<close>

partial_function (option) upload_chunks ::
  "'p env \<Rightarrow> 'p vsm \<Rightarrow> u64 \<Rightarrow> u32 \<Rightarrow> u32 \<Rightarrow> (error + bool \<times> 'p vsm \<times> u64) option" where
  "upload_chunks env s upload_buffer_previous upload_range_start upload_range_length =
     (if upload_range_length = 0 then Some (Inr (True, s, upload_buffer_previous))
      else
        (case upload_chunk env s upload_buffer_previous upload_range_start
                upload_range_length of
           Break result \<Rightarrow> Some result
         | Continue s upload_buffer_previous upload_range_start upload_range_length \<Rightarrow>
             upload_chunks env s upload_buffer_previous upload_range_start
               upload_range_length))"

declare upload_chunks.simps [code]

text \<open>
  The \<^verbatim>\<open>for\<close> loop of lines 210-254 over the page ranges: the trace writer is told
  of the range, the range's chunks are staged, and a failed request leaves the loop.
\<close>

fun upload_ranges_loop ::
  "'p env \<Rightarrow> 'p vsm \<Rightarrow> u64 \<Rightarrow> (u32 \<times> u32) list \<Rightarrow> (error + bool \<times> 'p vsm \<times> u64) option" where
  "upload_ranges_loop env s upload_buffer_previous [] =
     Some (Inr (True, s, upload_buffer_previous))"
| "upload_ranges_loop env s upload_buffer_previous (upload_range # rest) =
     (let upload_range_start = fst upload_range;
          upload_range_length = snd upload_range;
          s = s\<lparr>events := events s @
                [WriteMemoryRead (push_bit (page_size_log2 env) upload_range_start)
                   (push_bit (page_size_log2 env) upload_range_length)]\<rparr>
      in case upload_chunks env s upload_buffer_previous upload_range_start
                upload_range_length of
           None \<Rightarrow> None
         | Some (Inl e) \<Rightarrow> Some (Inl e)
         | Some (Inr (successful, s, upload_buffer_previous)) \<Rightarrow>
             if \<not> successful then Some (Inr (False, s, upload_buffer_previous))
             else upload_ranges_loop env s upload_buffer_previous rest)"

text \<open>
  \<^verbatim>\<open>UploadRanges\<close> (lines 191-263): the early return for an empty list, the one call
  of \<^verbatim>\<open>Use\<close>, the loop, and the flush of what is still pending.
\<close>

definition UploadRanges ::
  "'p env \<Rightarrow> 'p vsm \<Rightarrow> (u32 \<times> u32) list \<Rightarrow> (error + bool \<times> 'p vsm) option" where
  "UploadRanges env s upload_page_ranges =
     (if upload_page_ranges = [] then Some (Inr (True, s))
      else
        (case Use env s kTransferDestination
                (push_bit (page_size_log2 env) (fst (hd upload_page_ranges)),
                 push_bit (page_size_log2 env)
                   (fst (last upload_page_ranges) + snd (last upload_page_ranges) -
                    fst (hd upload_page_ranges))) of
           Inl e \<Rightarrow> Some (Inl e)
         | Inr s \<Rightarrow>
             (let s = s\<lparr>upload_regions := []\<rparr>
              in case upload_ranges_loop env s VK_NULL_HANDLE upload_page_ranges of
                   None \<Rightarrow> None
                 | Some (Inl e) \<Rightarrow> Some (Inl e)
                 | Some (Inr (successful, s, upload_buffer_previous)) \<Rightarrow>
                     if upload_regions s \<noteq> [] then
                       (if asserts_enabled env \<and> \<not> upload_buffer_previous \<noteq> VK_NULL_HANDLE
                        then Some (Inl AssertionFailed)
                        else Some (Inr (successful,
                               s\<lparr>events := events s @
                                    [CmdVkCopyBuffer upload_buffer_previous (buffer s)
                                       (upload_regions s)],
                                  upload_regions := []\<rparr>)))
                     else Some (Inr (successful, s)))))"

section \<open>Concrete collaborators\<close>

text \<open>
  A staging pool that grants every request in full from one staging buffer
  (identity 7); its state is the number of bytes handed out so far, which is also
  the offset of the next allocation.
\<close>

definition grant_in_full :: "nat \<Rightarrow> u64 \<Rightarrow> u64 \<Rightarrow> u64 \<Rightarrow> upload_alloc \<times> nat" where
  "grant_in_full handed_out submission request_size alignment =
     (\<lparr>upload_buffer_mapping = 0x10000 + of_nat handed_out,
       upload_buffer = 7,
       upload_buffer_offset = of_nat handed_out,
       upload_buffer_size = request_size\<rparr>,
      handed_out + unat request_size)"

text \<open>
  A staging pool that hands out one page (the alignment) per request. Its state is
  the number of requests seen; the script says, for each request, which staging
  buffer serves it, or that the request fails.
\<close>

definition page_pool ::
  "(nat \<Rightarrow> u64 option) \<Rightarrow> nat \<Rightarrow> u64 \<Rightarrow> u64 \<Rightarrow> u64 \<Rightarrow> upload_alloc \<times> nat" where
  "page_pool script n submission request_size alignment =
     (case script n of
        None \<Rightarrow>
          (\<lparr>upload_buffer_mapping = nullptr, upload_buffer = VK_NULL_HANDLE,
            upload_buffer_offset = 0, upload_buffer_size = 0\<rparr>, Suc n)
      | Some b \<Rightarrow>
          (\<lparr>upload_buffer_mapping = 0x10000 + of_nat n * alignment,
            upload_buffer = b,
            upload_buffer_offset = of_nat n * alignment,
            upload_buffer_size = alignment\<rparr>, Suc n))"

text \<open>
  A device with 4 KiB pages and a 512 MiB buffer, tessellation enabled, assertions
  kept, and a driver whose calls all succeed; the pool is a parameter.
\<close>

definition example_env ::
  "'p \<Rightarrow> ('p \<Rightarrow> u64 \<Rightarrow> u64 \<Rightarrow> u64 \<Rightarrow> upload_alloc \<times> 'p) \<Rightarrow> 'p env" where
  "example_env pool0 request =
     \<lparr>kBufferSize = 0x20000000,
      page_size_log2 = 12,
      asserts_enabled = True,
      tessellationShader = True,
      memory_types_device_local = 0x5,
      vkCreateBuffer = (\<lambda>flags create_size create_usage. (VK_SUCCESS, 0xB0)),
      vkGetBufferMemoryRequirements = (\<lambda>handle. (0x20000000, 0x6)),
      vkAllocateMemory = (\<lambda>allocation_size memory_type. (VK_SUCCESS, 0xA0)),
      vkBindBufferMemory = (\<lambda>handle memory memory_offset. VK_SUCCESS),
      new_upload_buffer_pool = pool0,
      RequestPartial = request,
      GetCurrentSubmission = 1\<rparr>"

text \<open>The state that \<^verbatim>\<open>Shutdown\<close> leaves, with nothing recorded yet.\<close>

definition idle_state :: "nat vsm" where
  "idle_state =
     \<lparr>buffer = VK_NULL_HANDLE,
      buffer_memory_type = 0,
      buffer_memory = [],
      buffer_memory_allocated = [],
      upload_buffer_pool = None,
      last_usage = kTransferDestination,
      last_written_range = (0, 0),
      upload_regions = [],
      events = []\<rparr>"

text \<open>An initialized object: the buffer 0xB0 bound to the memory 0xA0, and a pool.\<close>

definition ready_state :: "'p \<Rightarrow> 'p vsm" where
  "ready_state pool0 =
     \<lparr>buffer = 0xB0,
      buffer_memory_type = 2,
      buffer_memory = [0xA0],
      buffer_memory_allocated = [],
      upload_buffer_pool = Some pool0,
      last_usage = kTransferDestination,
      last_written_range = (0, 0),
      upload_regions = [],
      events = []\<rparr>"

section \<open>Vocabulary of the statements about creation and teardown\<close>

text \<open>The events that are calls of \<^verbatim>\<open>vkCreateBuffer\<close>.\<close>

fun is_VkCreateBuffer :: "event \<Rightarrow> bool" where
  "is_VkCreateBuffer (VkCreateBuffer flags create_size create_usage) = True"
| "is_VkCreateBuffer e = False"

text \<open>The usage bits of lines 55-57.\<close>

definition buffer_usage_bits :: u32 where
  "buffer_usage_bits =
     VK_BUFFER_USAGE_TRANSFER_SRC_BIT OR VK_BUFFER_USAGE_TRANSFER_DST_BIT OR
     VK_BUFFER_USAGE_STORAGE_BUFFER_BIT OR VK_BUFFER_USAGE_INDEX_BUFFER_BIT"

text \<open>
  The driver lets every step of \<^verbatim>\<open>Initialize\<close> through: the buffer is created with the
  flags 0, a device-local memory type fits, the memory is allocated and it is bound.
\<close>

definition device_accepts :: "'p env \<Rightarrow> bool" where
  "device_accepts env =
     (let created = vkCreateBuffer env 0 (ucast (kBufferSize env)) buffer_usage_bits;
          requirements = vkGetBufferMemoryRequirements env (snd created)
      in fst created = VK_SUCCESS \<and>
         (case bit_scan_forward (snd requirements AND memory_types_device_local env) of
            None \<Rightarrow> False
          | Some memory_type \<Rightarrow>
              (let allocated = vkAllocateMemory env (fst requirements) memory_type
               in fst allocated = VK_SUCCESS \<and>
                  vkBindBufferMemory env (snd created) (snd allocated) 0 = VK_SUCCESS)))"

text \<open>A driver that cannot create the buffer, and one that cannot bind the memory.\<close>

definition failing_create_env :: "nat env" where
  "failing_create_env =
     (example_env 0 grant_in_full)
       \<lparr>vkCreateBuffer := (\<lambda>flags create_size create_usage. (- 2, VK_NULL_HANDLE))\<rparr>"

definition failing_bind_env :: "nat env" where
  "failing_bind_env =
     (example_env 0 grant_in_full)
       \<lparr>vkBindBufferMemory := (\<lambda>handle memory memory_offset. - 2)\<rparr>"

section \<open>Vocabulary of the statements about the upload scheduler\<close>

text \<open>The size, the event and the answer of the request that the loop body makes for a
  range of which \<open>upload_range_length\<close> pages remain.\<close>

definition request_size :: "'p env \<Rightarrow> u32 \<Rightarrow> u64" where
  "request_size env upload_range_length =
     ucast (push_bit (page_size_log2 env) upload_range_length :: u32)"

definition request_event :: "'p env \<Rightarrow> u32 \<Rightarrow> upload_alloc \<Rightarrow> event" where
  "request_event env upload_range_length a =
     CallRequestPartial (GetCurrentSubmission env) (request_size env upload_range_length)
       (push_bit (page_size_log2 env) 1) a"

definition pool_answer :: "'p env \<Rightarrow> 'p \<Rightarrow> u32 \<Rightarrow> upload_alloc \<times> 'p" where
  "pool_answer env pool upload_range_length =
     RequestPartial env pool (GetCurrentSubmission env) (request_size env upload_range_length)
       (push_bit (page_size_log2 env) 1)"

text \<open>The copy region of a chunk, the pages it covers, and the three events that every
  granted chunk records: the request, the marking of the range as valid and the copy
  into the staging memory.\<close>

definition chunk_region :: "'p env \<Rightarrow> u32 \<Rightarrow> upload_alloc \<Rightarrow> VkBufferCopy" where
  "chunk_region env upload_range_start a =
     \<lparr>srcOffset = upload_buffer_offset a,
      dstOffset = ucast (push_bit (page_size_log2 env) upload_range_start :: u32),
      copy_size = upload_buffer_size a\<rparr>"

definition chunk_pages :: "'p env \<Rightarrow> upload_alloc \<Rightarrow> u32" where
  "chunk_pages env a = ucast (drop_bit (page_size_log2 env) (upload_buffer_size a))"

definition chunk_events :: "'p env \<Rightarrow> u32 \<Rightarrow> u32 \<Rightarrow> upload_alloc \<Rightarrow> event list" where
  "chunk_events env upload_range_start upload_range_length a =
     [request_event env upload_range_length a,
      MakeRangeValid (push_bit (page_size_log2 env) upload_range_start)
        (ucast (upload_buffer_size a)) False,
      Memcpy (upload_buffer_mapping a) (push_bit (page_size_log2 env) upload_range_start)
        (upload_buffer_size a)]"

text \<open>The maximal runs of a list of keyed items: consecutive items with the same key
  are collected, in order, under that key.\<close>

fun runs :: "('k \<times> 'v) list \<Rightarrow> ('k \<times> 'v list) list" where
  "runs [] = []"
| "runs ((k, v) # xs) =
     (case runs xs of
        [] \<Rightarrow> [(k, [v])]
      | (k', vs) # rest \<Rightarrow> if k' = k then (k, v # vs) # rest else (k, [v]) # (k', vs) # rest)"


text \<open>What the recorded events say: the barriers, the ranges told to the trace writer,
  the pool's answers and the granted ones among them, the guest addresses copied from,
  and the copy commands.\<close>

fun is_barrier :: "event \<Rightarrow> bool" where
  "is_barrier (CmdVkPipelineBarrier stage_mask_src stage_mask_dst barrier) = True"
| "is_barrier e = False"

fun memory_read_of :: "event \<Rightarrow> (u32 \<times> u32) list" where
  "memory_read_of (WriteMemoryRead address n) = [(address, n)]"
| "memory_read_of e = []"

definition memory_reads :: "event list \<Rightarrow> (u32 \<times> u32) list" where
  "memory_reads es = concat (map memory_read_of es)"

fun pool_answer_of :: "event \<Rightarrow> upload_alloc list" where
  "pool_answer_of (CallRequestPartial submission request alignment a) = [a]"
| "pool_answer_of e = []"

definition pool_answers :: "event list \<Rightarrow> upload_alloc list" where
  "pool_answers es = concat (map pool_answer_of es)"

definition granted :: "event list \<Rightarrow> upload_alloc list" where
  "granted es = filter (\<lambda>a. upload_buffer_mapping a \<noteq> nullptr) (pool_answers es)"

fun memcpy_of :: "event \<Rightarrow> u32 list" where
  "memcpy_of (Memcpy mapping source n) = [source]"
| "memcpy_of e = []"

definition memcpy_sources :: "event list \<Rightarrow> u32 list" where
  "memcpy_sources es = concat (map memcpy_of es)"

fun copy_command_of :: "event \<Rightarrow> (u64 \<times> u64 \<times> VkBufferCopy list) list" where
  "copy_command_of (CmdVkCopyBuffer src dst regions) = [(src, dst, regions)]"
| "copy_command_of e = []"

definition copy_commands :: "event list \<Rightarrow> (u64 \<times> u64 \<times> VkBufferCopy list) list" where
  "copy_commands es = concat (map copy_command_of es)"

text \<open>The chunks that were staged: each granted allocation with the guest address that
  was copied into it, as the staging buffer's identity and the copy region.\<close>

definition staged_chunks :: "event list \<Rightarrow> (u64 \<times> VkBufferCopy) list" where
  "staged_chunks es =
     map (\<lambda>(a, source).
            (upload_buffer a,
             \<lparr>srcOffset = upload_buffer_offset a, dstOffset = ucast source,
              copy_size = upload_buffer_size a\<rparr>))
       (zip (granted es) (memcpy_sources es))"

text \<open>The range that \<^verbatim>\<open>UploadRanges\<close> passes to \<^verbatim>\<open>Use\<close> (lines 199-203), and the flush
  of lines 255-261.\<close>

definition upload_span :: "'p env \<Rightarrow> (u32 \<times> u32) list \<Rightarrow> u32 \<times> u32" where
  "upload_span env upload_page_ranges =
     (push_bit (page_size_log2 env) (fst (hd upload_page_ranges)),
      push_bit (page_size_log2 env)
        (fst (last upload_page_ranges) + snd (last upload_page_ranges) -
         fst (hd upload_page_ranges)))"

definition final_flush :: "'p vsm \<Rightarrow> u64 \<Rightarrow> 'p vsm" where
  "final_flush s upload_buffer_previous =
     (if upload_regions s \<noteq> []
      then s\<lparr>events := events s @
               [CmdVkCopyBuffer upload_buffer_previous (buffer s) (upload_regions s)],
             upload_regions := []\<rparr>
      else s)"

text \<open>The invariant of the two loops, relative to the state \<open>s0\<close> in which they start:
  the copy commands recorded so far, followed by the pending regions under the previous
  identity, are the maximal runs of the chunks staged so far. The second predicate
  describes the state right after a refused request.\<close>

definition pending :: "'p vsm \<Rightarrow> u64 \<Rightarrow> (u64 \<times> VkBufferCopy list) list" where
  "pending s upload_buffer_previous =
     (if upload_regions s = [] then [] else [(upload_buffer_previous, upload_regions s)])"

definition staging_inv :: "'p vsm \<Rightarrow> 'p vsm \<Rightarrow> u64 \<Rightarrow> bool" where
  "staging_inv s0 s prev =
     (\<exists>new. events s = events s0 @ new \<and>
        buffer s = buffer s0 \<and> last_usage s = last_usage s0 \<and>
        last_written_range s = last_written_range s0 \<and>
        filter is_barrier new = [] \<and>
        pool_answers new = granted new \<and>
        length (granted new) = length (memcpy_sources new) \<and>
        runs (staged_chunks new) =
          map (\<lambda>(src, dst, regions). (src, regions)) (copy_commands new) @ pending s prev \<and>
        (upload_regions s = [] \<longrightarrow> staged_chunks new = []) \<and>
        (\<forall>c \<in> set (copy_commands new). fst (snd c) = buffer s0))"

definition refused_inv :: "'p env \<Rightarrow> 'p vsm \<Rightarrow> 'p vsm \<Rightarrow> u64 \<Rightarrow> bool" where
  "refused_inv env s0 s prev =
     (\<exists>mid a len. staging_inv s0 mid prev \<and> upload_buffer_mapping a = nullptr \<and>
        events s = events mid @ [request_event env len a] \<and>
        upload_regions s = upload_regions mid \<and> buffer s = buffer mid \<and>
        last_usage s = last_usage mid \<and> last_written_range s = last_written_range mid)"

section \<open>Example runs\<close>

text \<open>
  Scripts for the page pool: two pages from buffer 7, then a refusal; two pages from
  buffer 7 and the rest from buffer 8; and a pool that refuses everything.
\<close>

definition two_then_refuse :: "nat \<Rightarrow> u64 option" where
  "two_then_refuse n = (if n < 2 then Some 7 else if n = 2 then None else Some 8)"

definition two_then_other :: "nat \<Rightarrow> u64 option" where
  "two_then_other n = (if n < 2 then Some 7 else Some 8)"

definition refuse_all :: "nat \<Rightarrow> u64 option" where
  "refuse_all n = None"

text \<open>
  The events of the runs used as examples: the ranges (0, 4) and (10, 2) with a pool
  that grants in full; the barrier that comes first when the buffer was last read; and
  the ranges (0, 1), (2, 3), (7, 1), five pages in all, with the page pool under each
  script.
\<close>

definition in_full_events :: "event list" where
  "in_full_events =
     [WriteMemoryRead 0 16384,
      CallRequestPartial 1 16384 4096
        \<lparr>upload_buffer_mapping = 0x10000, upload_buffer = 7,
         upload_buffer_offset = 0, upload_buffer_size = 16384\<rparr>,
      MakeRangeValid 0 16384 False, Memcpy 0x10000 0 16384,
      WriteMemoryRead 40960 8192,
      CallRequestPartial 1 8192 4096
        \<lparr>upload_buffer_mapping = 0x14000, upload_buffer = 7,
         upload_buffer_offset = 16384, upload_buffer_size = 8192\<rparr>,
      MakeRangeValid 40960 8192 False, Memcpy 0x14000 40960 8192,
      CmdVkCopyBuffer 7 0xB0
        [\<lparr>srcOffset = 0, dstOffset = 0, copy_size = 16384\<rparr>,
         \<lparr>srcOffset = 16384, dstOffset = 40960, copy_size = 8192\<rparr>]]"

definition read_to_transfer_barrier :: event where
  "read_to_transfer_barrier =
     CmdVkPipelineBarrier 0x18AC 0x1000
       \<lparr>srcAccessMask = 0x822, dstAccessMask = 0x1000,
        srcQueueFamilyIndex = VK_QUEUE_FAMILY_IGNORED,
        dstQueueFamilyIndex = VK_QUEUE_FAMILY_IGNORED,
        barrier_buffer = 0xB0, barrier_offset = 0, barrier_size = VK_WHOLE_SIZE\<rparr>"

definition refused_third_events :: "event list" where
  "refused_third_events =
     [WriteMemoryRead 0 4096,
      CallRequestPartial 1 4096 4096
        \<lparr>upload_buffer_mapping = 0x10000, upload_buffer = 7,
         upload_buffer_offset = 0, upload_buffer_size = 4096\<rparr>,
      MakeRangeValid 0 4096 False, Memcpy 0x10000 0 4096,
      WriteMemoryRead 8192 12288,
      CallRequestPartial 1 12288 4096
        \<lparr>upload_buffer_mapping = 0x11000, upload_buffer = 7,
         upload_buffer_offset = 4096, upload_buffer_size = 4096\<rparr>,
      MakeRangeValid 8192 4096 False, Memcpy 0x11000 8192 4096,
      CallRequestPartial 1 8192 4096
        \<lparr>upload_buffer_mapping = 0, upload_buffer = 0,
         upload_buffer_offset = 0, upload_buffer_size = 0\<rparr>,
      CmdVkCopyBuffer 7 0xB0
        [\<lparr>srcOffset = 0, dstOffset = 0, copy_size = 4096\<rparr>,
         \<lparr>srcOffset = 4096, dstOffset = 8192, copy_size = 4096\<rparr>]]"

definition two_buffers_events :: "event list" where
  "two_buffers_events =
     [WriteMemoryRead 0 4096,
      CallRequestPartial 1 4096 4096
        \<lparr>upload_buffer_mapping = 0x10000, upload_buffer = 7,
         upload_buffer_offset = 0, upload_buffer_size = 4096\<rparr>,
      MakeRangeValid 0 4096 False, Memcpy 0x10000 0 4096,
      WriteMemoryRead 8192 12288,
      CallRequestPartial 1 12288 4096
        \<lparr>upload_buffer_mapping = 0x11000, upload_buffer = 7,
         upload_buffer_offset = 4096, upload_buffer_size = 4096\<rparr>,
      MakeRangeValid 8192 4096 False, Memcpy 0x11000 8192 4096,
      CallRequestPartial 1 8192 4096
        \<lparr>upload_buffer_mapping = 0x12000, upload_buffer = 8,
         upload_buffer_offset = 8192, upload_buffer_size = 4096\<rparr>,
      MakeRangeValid 12288 4096 False, Memcpy 0x12000 12288 4096,
      CmdVkCopyBuffer 7 0xB0
        [\<lparr>srcOffset = 0, dstOffset = 0, copy_size = 4096\<rparr>,
         \<lparr>srcOffset = 4096, dstOffset = 8192, copy_size = 4096\<rparr>],
      CallRequestPartial 1 4096 4096
        \<lparr>upload_buffer_mapping = 0x13000, upload_buffer = 8,
         upload_buffer_offset = 12288, upload_buffer_size = 4096\<rparr>,
      MakeRangeValid 16384 4096 False, Memcpy 0x13000 16384 4096,
      WriteMemoryRead 28672 4096,
      CallRequestPartial 1 4096 4096
        \<lparr>upload_buffer_mapping = 0x14000, upload_buffer = 8,
         upload_buffer_offset = 16384, upload_buffer_size = 4096\<rparr>,
      MakeRangeValid 28672 4096 False, Memcpy 0x14000 28672 4096,
      CmdVkCopyBuffer 8 0xB0
        [\<lparr>srcOffset = 8192, dstOffset = 12288, copy_size = 4096\<rparr>,
         \<lparr>srcOffset = 12288, dstOffset = 16384, copy_size = 4096\<rparr>,
         \<lparr>srcOffset = 16384, dstOffset = 28672, copy_size = 4096\<rparr>]]"

definition refused_first_events :: "event list" where
  "refused_first_events =
     [WriteMemoryRead 0 4096,
      CallRequestPartial 1 4096 4096
        \<lparr>upload_buffer_mapping = 0, upload_buffer = 0,
         upload_buffer_offset = 0, upload_buffer_size = 0\<rparr>]"

text \<open>
  What the scheduler needs of the staging pool to come to an end: an allocation that
  is granted comes from a staging buffer (a handle that is not null), and for a request
  of at least one page it is at least one page and at most the request.
\<close>

definition pool_keeps_contract :: "'p env \<Rightarrow> bool" where
  "pool_keeps_contract env =
     (\<forall>pool request.
        let a = fst (RequestPartial env pool (GetCurrentSubmission env) request
                      (push_bit (page_size_log2 env) 1))
        in upload_buffer_mapping a \<noteq> nullptr \<longrightarrow>
             upload_buffer a \<noteq> VK_NULL_HANDLE \<and>
             (push_bit (page_size_log2 env) 1 \<le> request \<longrightarrow>
                push_bit (page_size_log2 env) 1 \<le> upload_buffer_size a \<and>
                upload_buffer_size a \<le> request))"

text \<open>
  What \<^verbatim>\<open>UploadRanges\<close> reports to the trace writer for an upload range (line 213): the
  physical address and the length in bytes. A state is quiet since another when the
  events recorded in between contain no such report.
\<close>

definition notified :: "'p env \<Rightarrow> u32 \<times> u32 \<Rightarrow> u32 \<times> u32" where
  "notified env upload_range =
     (push_bit (page_size_log2 env) (fst upload_range),
      push_bit (page_size_log2 env) (snd upload_range))"

definition quiet_since :: "'p vsm \<Rightarrow> 'p vsm \<Rightarrow> bool" where
  "quiet_since s0 s = (\<exists>new. events s = events s0 @ new \<and> memory_reads new = [])"

text \<open>
  The byte ranges, as offset and size, of the pipeline barriers in a list of events.
\<close>

fun barrier_range_of :: "event \<Rightarrow> (u64 \<times> u64) list" where
  "barrier_range_of (CmdVkPipelineBarrier stage_mask_src stage_mask_dst barrier) =
     [(barrier_offset barrier, barrier_size barrier)]"
| "barrier_range_of e = []"

definition barrier_ranges :: "event list \<Rightarrow> (u64 \<times> u64) list" where
  "barrier_ranges es = concat (map barrier_range_of es)"

text \<open>
  A request to the staging pool is granted in full when the allocation is not null and
  has the size that was asked for; a list of events is, when each of its requests is.
\<close>

fun granted_in_full :: "event \<Rightarrow> bool" where
  "granted_in_full (CallRequestPartial submission request alignment a) =
     (upload_buffer_mapping a \<noteq> nullptr \<and> upload_buffer_size a = request)"
| "granted_in_full e = True"

definition all_granted_in_full :: "event list \<Rightarrow> bool" where
  "all_granted_in_full es = list_all granted_in_full es"

text \<open>
  The destinations of the copy commands in a list of events, in order: for each region
  the offset in the device buffer and the size, in bytes.
\<close>

definition copy_destinations :: "event list \<Rightarrow> (nat \<times> nat) list" where
  "copy_destinations es =
     concat (map (\<lambda>(src, dst, regions).
                    map (\<lambda>region. (unat (dstOffset region), unat (copy_size region))) regions)
               (copy_commands es))"

text \<open>
  Page ranges, as first page and number of pages, that are sorted and disjoint: each
  range ends at or before the page where the next one starts.
\<close>

fun sorted_disjoint :: "(u32 \<times> u32) list \<Rightarrow> bool" where
  "sorted_disjoint (r # r' # rs) =
     (unat (fst r) + unat (snd r) \<le> unat (fst r') \<and> sorted_disjoint (r' # rs))"
| "sorted_disjoint rs = True"

text \<open>
  What \<^verbatim>\<open>Initialize\<close> constructs: the buffer handle that the driver stores for the one
  creation call, and the memory that is allocated, which is none unless creation and
  the selection of a memory type succeed and the allocation itself succeeds. An event is
  a release when it destroys a buffer or frees memory.
\<close>

definition created_buffer :: "'p env \<Rightarrow> u64" where
  "created_buffer env =
     snd (vkCreateBuffer env 0 (ucast (kBufferSize env)) buffer_usage_bits)"

definition allocated_memory :: "'p env \<Rightarrow> u64 list" where
  "allocated_memory env =
     (let created = vkCreateBuffer env 0 (ucast (kBufferSize env)) buffer_usage_bits;
          requirements = vkGetBufferMemoryRequirements env (snd created)
      in if fst created \<noteq> VK_SUCCESS then []
         else
           (case bit_scan_forward (snd requirements AND memory_types_device_local env) of
              None \<Rightarrow> []
            | Some memory_type \<Rightarrow>
                (let allocated = vkAllocateMemory env (fst requirements) memory_type
                 in if fst allocated = VK_SUCCESS then [snd allocated] else [])))"

fun is_release :: "event \<Rightarrow> bool" where
  "is_release (VkDestroyBuffer handle) = True"
| "is_release (VkFreeMemory memory) = True"
| "is_release e = False"

text \<open>
  The states of an object between calls. The constructor (lines 28-33) names no member
  of the class in its initializer list, so the vectors and the pool pointer are
  default-constructed, empty and null; what the handle, the usage, the range and the
  memory type start with is written in the class declaration and is left open, as is
  what has been recorded before. From there the member functions are called:
  \<^verbatim>\<open>Initialize\<close>, \<^verbatim>\<open>Shutdown\<close>, \<^verbatim>\<open>Use\<close> and \<^verbatim>\<open>UploadRanges\<close> when they return, and
  \<^verbatim>\<open>CompletedSubmissionUpdated\<close> and \<^verbatim>\<open>EndSubmission\<close> (lines 150-154), which call into
  the pool and change nothing but the pool.
\<close>

definition constructed :: "'p vsm \<Rightarrow> bool" where
  "constructed s =
     (buffer_memory s = [] \<and> buffer_memory_allocated s = [] \<and>
      upload_buffer_pool s = None \<and> upload_regions s = [])"

inductive reachable :: "'p env \<Rightarrow> 'p vsm \<Rightarrow> bool" for env :: "'p env" where
  after_construction: "constructed s \<Longrightarrow> reachable env s"
| after_Initialize: "reachable env s \<Longrightarrow> reachable env (snd (Initialize env s))"
| after_Shutdown: "reachable env s \<Longrightarrow> reachable env (Shutdown s from_destructor)"
| after_Use:
    "reachable env s \<Longrightarrow> Use env s usage written_range = Inr s' \<Longrightarrow> reachable env s'"
| after_UploadRanges:
    "reachable env s \<Longrightarrow>
     UploadRanges env s upload_page_ranges = Some (Inr (successful, s')) \<Longrightarrow>
     reachable env s'"
| after_pool_call:
    "reachable env s \<Longrightarrow> upload_buffer_pool s = Some pool \<Longrightarrow>
     reachable env (s\<lparr>upload_buffer_pool := Some pool'\<rparr>)"

text \<open>
  The events of a successful \<^verbatim>\<open>Initialize\<close> with the example driver, and a copy region
  left over from before.
\<close>

definition initialize_events :: "event list" where
  "initialize_events =
     [CallInitializeCommon, VkCreateBuffer 0 0x20000000 0x63,
      VkGetBufferMemoryRequirements 0xB0, VkAllocateMemory 0x20000000 2,
      VkBindBufferMemory 0xB0 0xA0 0]"

definition stale_region :: VkBufferCopy where
  "stale_region = \<lparr>srcOffset = 0x7000, dstOffset = 0x100000, copy_size = 4096\<rparr>"

text \<open>
  What the loops of \<^verbatim>\<open>UploadRanges\<close> record for one range, apart from copy commands,
  given the answers of the pool to that range's requests, in order: a granted chunk
  records its request, the marking and the copy into the staging memory, and moves the
  cursor on by the pages it covers; a refused request is the last event. A range is
  staged by the answers when all are granted, each at a cursor with pages left, and no
  page is left after the last; it is refused when the last answer is a refusal, at a
  cursor with pages left, and all answers before are granted.
\<close>

fun is_copy :: "event \<Rightarrow> bool" where
  "is_copy (CmdVkCopyBuffer src dst regions) = True"
| "is_copy e = False"

fun staging_trace :: "'p env \<Rightarrow> u32 \<Rightarrow> u32 \<Rightarrow> upload_alloc list \<Rightarrow> event list" where
  "staging_trace env upload_range_start upload_range_length [] = []"
| "staging_trace env upload_range_start upload_range_length (a # answers) =
     (if upload_buffer_mapping a = nullptr
      then [request_event env upload_range_length a]
      else chunk_events env upload_range_start upload_range_length a @
           staging_trace env (upload_range_start + chunk_pages env a)
             (upload_range_length - chunk_pages env a) answers)"

fun range_staged :: "'p env \<Rightarrow> u32 \<Rightarrow> upload_alloc list \<Rightarrow> bool" where
  "range_staged env upload_range_length [] = (upload_range_length = 0)"
| "range_staged env upload_range_length (a # answers) =
     (upload_range_length \<noteq> 0 \<and> upload_buffer_mapping a \<noteq> nullptr \<and>
      range_staged env (upload_range_length - chunk_pages env a) answers)"

fun range_refused :: "'p env \<Rightarrow> u32 \<Rightarrow> upload_alloc list \<Rightarrow> bool" where
  "range_refused env upload_range_length [] = False"
| "range_refused env upload_range_length (a # answers) =
     (upload_range_length \<noteq> 0 \<and>
      (if upload_buffer_mapping a = nullptr then answers = []
       else range_refused env (upload_range_length - chunk_pages env a) answers))"

text \<open>
  The block of events of one range: the report of the range to the trace writer comes
  first, and what follows is, apart from copy commands, the trace of that range under
  the answers that the block holds, which stage the range (a complete block) or end
  with a refusal.
\<close>

definition range_block :: "'p env \<Rightarrow> u32 \<times> u32 \<Rightarrow> bool \<Rightarrow> event list \<Rightarrow> bool" where
  "range_block env upload_range complete block =
     (case block of
        [] \<Rightarrow> False
      | e # body \<Rightarrow>
          e = WriteMemoryRead (push_bit (page_size_log2 env) (fst upload_range))
                (push_bit (page_size_log2 env) (snd upload_range)) \<and>
          filter (\<lambda>e. \<not> is_copy e) body =
            staging_trace env (fst upload_range) (snd upload_range) (pool_answers body) \<and>
          (if complete then range_staged env (snd upload_range) (pool_answers body)
           else range_refused env (snd upload_range) (pool_answers body)))"

text \<open>
  The blocks of a call, against its ranges and its result: the blocks are those of the
  first ranges, one each and in order; with the result true every range has its block
  and all blocks are complete; with the result false the last block ends with a
  refusal, the blocks before it are complete, and the ranges after it have no block.
\<close>

fun upload_blocks :: "'p env \<Rightarrow> (u32 \<times> u32) list \<Rightarrow> event list list \<Rightarrow> bool \<Rightarrow> bool" where
  "upload_blocks env upload_page_ranges [] successful =
     (successful \<and> upload_page_ranges = [])"
| "upload_blocks env [] (block # blocks) successful = False"
| "upload_blocks env (upload_range # upload_page_ranges) (block # blocks) successful =
     (if blocks = [] \<and> \<not> successful then range_block env upload_range False block
      else range_block env upload_range True block \<and>
           upload_blocks env upload_page_ranges blocks successful)"

text \<open>
  The blocks of the example run whose third request is refused: the first range is
  staged, the second ends with the refusal, the third has no block.
\<close>

definition refused_third_blocks :: "event list list" where
  "refused_third_blocks =
     [[WriteMemoryRead 0 4096,
       CallRequestPartial 1 4096 4096
         \<lparr>upload_buffer_mapping = 0x10000, upload_buffer = 7,
          upload_buffer_offset = 0, upload_buffer_size = 4096\<rparr>,
       MakeRangeValid 0 4096 False, Memcpy 0x10000 0 4096],
      [WriteMemoryRead 8192 12288,
       CallRequestPartial 1 12288 4096
         \<lparr>upload_buffer_mapping = 0x11000, upload_buffer = 7,
          upload_buffer_offset = 4096, upload_buffer_size = 4096\<rparr>,
       MakeRangeValid 8192 4096 False, Memcpy 0x11000 8192 4096,
       CallRequestPartial 1 8192 4096
         \<lparr>upload_buffer_mapping = 0, upload_buffer = 0,
          upload_buffer_offset = 0, upload_buffer_size = 0\<rparr>]]"

section \<open>Properties of the barrier table\<close>

text \<open>
  Claim C1. For each of the four usages, \<^verbatim>\<open>GetBarrier\<close> returns the stage and access
  masks of the specification's table: compute write is the compute-shader stage with
  shader-read access, and no shader-write bit; transfer destination is the transfer
  stage with transfer-write access; read is vertex input, vertex shader, fragment
  shader, compute shader and transfer, with index-read, shader-read and
  transfer-read access; guest draw read/write is vertex input, vertex shader and
  fragment shader, with index-read, shader-read and shader-write access. The
  tessellation-evaluation stage is in the mask exactly when the device has
  tessellation and the usage is one of the last two.
\<close>

theorem GetBarrier_table:
  "GetBarrier env kComputeWrite =
     (VK_PIPELINE_STAGE_COMPUTE_SHADER_BIT, VK_ACCESS_SHADER_READ_BIT) \<and>
   GetBarrier env kTransferDestination =
     (VK_PIPELINE_STAGE_TRANSFER_BIT, VK_ACCESS_TRANSFER_WRITE_BIT) \<and>
   GetBarrier env kRead =
     (if tessellationShader env
      then VK_PIPELINE_STAGE_VERTEX_INPUT_BIT OR VK_PIPELINE_STAGE_VERTEX_SHADER_BIT OR
           VK_PIPELINE_STAGE_FRAGMENT_SHADER_BIT OR
           VK_PIPELINE_STAGE_TESSELLATION_EVALUATION_SHADER_BIT OR
           VK_PIPELINE_STAGE_COMPUTE_SHADER_BIT OR VK_PIPELINE_STAGE_TRANSFER_BIT
      else VK_PIPELINE_STAGE_VERTEX_INPUT_BIT OR VK_PIPELINE_STAGE_VERTEX_SHADER_BIT OR
           VK_PIPELINE_STAGE_FRAGMENT_SHADER_BIT OR
           VK_PIPELINE_STAGE_COMPUTE_SHADER_BIT OR VK_PIPELINE_STAGE_TRANSFER_BIT,
      VK_ACCESS_INDEX_READ_BIT OR VK_ACCESS_SHADER_READ_BIT OR VK_ACCESS_TRANSFER_READ_BIT) \<and>
   GetBarrier env kGuestDrawReadWrite =
     (if tessellationShader env
      then VK_PIPELINE_STAGE_VERTEX_INPUT_BIT OR VK_PIPELINE_STAGE_VERTEX_SHADER_BIT OR
           VK_PIPELINE_STAGE_FRAGMENT_SHADER_BIT OR
           VK_PIPELINE_STAGE_TESSELLATION_EVALUATION_SHADER_BIT
      else VK_PIPELINE_STAGE_VERTEX_INPUT_BIT OR VK_PIPELINE_STAGE_VERTEX_SHADER_BIT OR
           VK_PIPELINE_STAGE_FRAGMENT_SHADER_BIT,
      VK_ACCESS_INDEX_READ_BIT OR VK_ACCESS_SHADER_READ_BIT OR VK_ACCESS_SHADER_WRITE_BIT) \<and>
   snd (GetBarrier env kComputeWrite) AND VK_ACCESS_SHADER_WRITE_BIT = 0 \<and>
   (\<forall>usage. (fst (GetBarrier env usage) AND
               VK_PIPELINE_STAGE_TESSELLATION_EVALUATION_SHADER_BIT \<noteq> 0) =
            (tessellationShader env \<and> (usage = kRead \<or> usage = kGuestDrawReadWrite)))"
proof -
  have write_usages:
    "GetBarrier env kComputeWrite =
       (VK_PIPELINE_STAGE_COMPUTE_SHADER_BIT, VK_ACCESS_SHADER_READ_BIT)"
    "GetBarrier env kTransferDestination =
       (VK_PIPELINE_STAGE_TRANSFER_BIT, VK_ACCESS_TRANSFER_WRITE_BIT)"
    by (simp_all add: GetBarrier_def)
  have read_usage: "GetBarrier env kRead =
     (if tessellationShader env
      then VK_PIPELINE_STAGE_VERTEX_INPUT_BIT OR VK_PIPELINE_STAGE_VERTEX_SHADER_BIT OR
           VK_PIPELINE_STAGE_FRAGMENT_SHADER_BIT OR
           VK_PIPELINE_STAGE_TESSELLATION_EVALUATION_SHADER_BIT OR
           VK_PIPELINE_STAGE_COMPUTE_SHADER_BIT OR VK_PIPELINE_STAGE_TRANSFER_BIT
      else VK_PIPELINE_STAGE_VERTEX_INPUT_BIT OR VK_PIPELINE_STAGE_VERTEX_SHADER_BIT OR
           VK_PIPELINE_STAGE_FRAGMENT_SHADER_BIT OR
           VK_PIPELINE_STAGE_COMPUTE_SHADER_BIT OR VK_PIPELINE_STAGE_TRANSFER_BIT,
      VK_ACCESS_INDEX_READ_BIT OR VK_ACCESS_SHADER_READ_BIT OR VK_ACCESS_TRANSFER_READ_BIT)"
    by (simp add: GetBarrier_def Let_def ac_simps)
  have draw_usage: "GetBarrier env kGuestDrawReadWrite =
     (if tessellationShader env
      then VK_PIPELINE_STAGE_VERTEX_INPUT_BIT OR VK_PIPELINE_STAGE_VERTEX_SHADER_BIT OR
           VK_PIPELINE_STAGE_FRAGMENT_SHADER_BIT OR
           VK_PIPELINE_STAGE_TESSELLATION_EVALUATION_SHADER_BIT
      else VK_PIPELINE_STAGE_VERTEX_INPUT_BIT OR VK_PIPELINE_STAGE_VERTEX_SHADER_BIT OR
           VK_PIPELINE_STAGE_FRAGMENT_SHADER_BIT,
      VK_ACCESS_INDEX_READ_BIT OR VK_ACCESS_SHADER_READ_BIT OR VK_ACCESS_SHADER_WRITE_BIT)"
    by (simp add: GetBarrier_def Let_def ac_simps)
  have no_write_bit: "snd (GetBarrier env kComputeWrite) AND VK_ACCESS_SHADER_WRITE_BIT = 0"
    by (simp add: write_usages VK_ACCESS_SHADER_READ_BIT_def VK_ACCESS_SHADER_WRITE_BIT_def)
  have tessellation: "(fst (GetBarrier env usage) AND
               VK_PIPELINE_STAGE_TESSELLATION_EVALUATION_SHADER_BIT \<noteq> 0) =
            (tessellationShader env \<and> (usage = kRead \<or> usage = kGuestDrawReadWrite))" for usage
    by (cases usage; cases "tessellationShader env")
       (simp_all add: write_usages read_usage draw_usage VK_PIPELINE_STAGE_VERTEX_INPUT_BIT_def
          VK_PIPELINE_STAGE_VERTEX_SHADER_BIT_def VK_PIPELINE_STAGE_FRAGMENT_SHADER_BIT_def
          VK_PIPELINE_STAGE_TESSELLATION_EVALUATION_SHADER_BIT_def
          VK_PIPELINE_STAGE_COMPUTE_SHADER_BIT_def VK_PIPELINE_STAGE_TRANSFER_BIT_def)
  show ?thesis
    using write_usages read_usage draw_usage no_write_bit tessellation by blast
qed

section \<open>Properties of the usage tracker\<close>

text \<open>
  Claim C2. A call of \<^verbatim>\<open>Use\<close> that keeps the contract of a read (or runs in a build
  without assertions) returns, and it records exactly one pipeline barrier if the
  usage differs from the stored one or the stored written range has a non-zero
  length; otherwise it records nothing.
\<close>

theorem Use_emits_one_barrier_iff:
  assumes "asserts_enabled env \<longrightarrow>
             usage \<noteq> kRead \<or> snd (clip_written_range env written_range) = 0"
  shows "\<exists>s' emitted. Use env s usage written_range = Inr s' \<and>
           events s' = events s @ emitted \<and>
           (if usage \<noteq> last_usage s \<or> snd (last_written_range s) \<noteq> 0
            then \<exists>stage_mask_src stage_mask_dst barrier.
                   emitted = [CmdVkPipelineBarrier stage_mask_src stage_mask_dst barrier]
            else emitted = [])"
  using assms by (auto simp: Use_def Let_def split: prod.splits)

text \<open>
  The theorem at work: from the state after initialization (transfer destination,
  nothing written), a read emits one barrier and another transfer emits none.
\<close>

theorem Use_emits_one_barrier_iff_witness:
  "(\<exists>s' emitted.
      Use (example_env 0 grant_in_full) (ready_state 0) kRead (0, 0) = Inr s' \<and>
      events s' = events (ready_state 0) @ emitted \<and> length emitted = 1) \<and>
   (\<exists>s'. Use (example_env 0 grant_in_full) (ready_state 0) kTransferDestination (0, 4096) = Inr s' \<and>
      events s' = events (ready_state 0))"
  using Use_emits_one_barrier_iff [of "example_env 0 grant_in_full" kRead "(0, 0)" "ready_state 0"]
        Use_emits_one_barrier_iff [of "example_env 0 grant_in_full" kTransferDestination
          "(0, 4096)" "ready_state 0"]
  by (auto simp: example_env_def ready_state_def clip_written_range_def)

text \<open>
  Claim C3. In every returning call of \<^verbatim>\<open>Use\<close> the clipped written range becomes the
  stored one. If the usage is the stored one, the stored usage stays and the barrier,
  emitted when the stored range is not empty, covers exactly the stored range, with
  both sides' masks from that usage. If the usage differs, the barrier starts at 0
  with \<^verbatim>\<open>VK_WHOLE_SIZE\<close>, its source masks are the old usage's, its destination masks
  the new usage's, and the new usage is stored.
\<close>

theorem Use_barrier_and_state:
  assumes "asserts_enabled env \<longrightarrow>
             usage \<noteq> kRead \<or> snd (clip_written_range env written_range) = 0"
  shows "\<exists>s'. Use env s usage written_range = Inr s' \<and>
           last_written_range s' = clip_written_range env written_range \<and>
           (usage = last_usage s \<longrightarrow>
              last_usage s' = last_usage s \<and>
              (snd (last_written_range s) \<noteq> 0 \<longrightarrow>
                 events s' = events s @
                   [CmdVkPipelineBarrier (fst (GetBarrier env usage)) (fst (GetBarrier env usage))
                      \<lparr>srcAccessMask = snd (GetBarrier env usage),
                       dstAccessMask = snd (GetBarrier env usage),
                       srcQueueFamilyIndex = VK_QUEUE_FAMILY_IGNORED,
                       dstQueueFamilyIndex = VK_QUEUE_FAMILY_IGNORED,
                       barrier_buffer = buffer s,
                       barrier_offset = ucast (fst (last_written_range s)),
                       barrier_size = ucast (snd (last_written_range s))\<rparr>])) \<and>
           (usage \<noteq> last_usage s \<longrightarrow>
              last_usage s' = usage \<and>
              events s' = events s @
                [CmdVkPipelineBarrier (fst (GetBarrier env (last_usage s)))
                   (fst (GetBarrier env usage))
                   \<lparr>srcAccessMask = snd (GetBarrier env (last_usage s)),
                    dstAccessMask = snd (GetBarrier env usage),
                    srcQueueFamilyIndex = VK_QUEUE_FAMILY_IGNORED,
                    dstQueueFamilyIndex = VK_QUEUE_FAMILY_IGNORED,
                    barrier_buffer = buffer s,
                    barrier_offset = 0,
                    barrier_size = VK_WHOLE_SIZE\<rparr>])"
  using assms by (auto simp: Use_def Let_def split: prod.splits)

text \<open>
  The theorem at work: committing a pending transfer write of 4096 bytes at 8192,
  and a change from transfer destination to guest draw with a range that is clipped.
\<close>

theorem Use_barrier_and_state_witness:
  "(\<exists>s'. Use (example_env 0 grant_in_full) ((ready_state 0)\<lparr>last_written_range := (8192, 4096)\<rparr>)
            kTransferDestination (0, 0) = Inr s' \<and>
         last_usage s' = kTransferDestination \<and>
         last_written_range s' = (0, 0) \<and>
         events s' =
           [CmdVkPipelineBarrier VK_PIPELINE_STAGE_TRANSFER_BIT VK_PIPELINE_STAGE_TRANSFER_BIT
              \<lparr>srcAccessMask = VK_ACCESS_TRANSFER_WRITE_BIT,
               dstAccessMask = VK_ACCESS_TRANSFER_WRITE_BIT,
               srcQueueFamilyIndex = VK_QUEUE_FAMILY_IGNORED,
               dstQueueFamilyIndex = VK_QUEUE_FAMILY_IGNORED,
               barrier_buffer = 0xB0,
               barrier_offset = 8192,
               barrier_size = 4096\<rparr>]) \<and>
   (\<exists>s'. Use (example_env 0 grant_in_full) (ready_state 0)
            kGuestDrawReadWrite (4096, 0xFFFFFFFF) = Inr s' \<and>
         last_usage s' = kGuestDrawReadWrite \<and>
         last_written_range s' = (4096, 0x1FFFF000) \<and>
         events s' =
           [CmdVkPipelineBarrier VK_PIPELINE_STAGE_TRANSFER_BIT 0xAC
              \<lparr>srcAccessMask = VK_ACCESS_TRANSFER_WRITE_BIT,
               dstAccessMask = 0x62,
               srcQueueFamilyIndex = VK_QUEUE_FAMILY_IGNORED,
               dstQueueFamilyIndex = VK_QUEUE_FAMILY_IGNORED,
               barrier_buffer = 0xB0,
               barrier_offset = 0,
               barrier_size = VK_WHOLE_SIZE\<rparr>])"
proof -
  let ?env = "example_env (0 :: nat) grant_in_full"
  have gb: "GetBarrier ?env kTransferDestination =
              (VK_PIPELINE_STAGE_TRANSFER_BIT, VK_ACCESS_TRANSFER_WRITE_BIT)"
           "GetBarrier ?env kGuestDrawReadWrite = (0xAC, 0x62)"
    by (simp_all add: GetBarrier_def example_env_def Let_def
          VK_PIPELINE_STAGE_VERTEX_INPUT_BIT_def VK_PIPELINE_STAGE_VERTEX_SHADER_BIT_def
          VK_PIPELINE_STAGE_FRAGMENT_SHADER_BIT_def
          VK_PIPELINE_STAGE_TESSELLATION_EVALUATION_SHADER_BIT_def
          VK_ACCESS_INDEX_READ_BIT_def VK_ACCESS_SHADER_READ_BIT_def
          VK_ACCESS_SHADER_WRITE_BIT_def)
  have clip: "clip_written_range ?env (0, 0) = (0, 0)"
             "clip_written_range ?env (4096, 0xFFFFFFFF) = (4096, 0x1FFFF000)"
    by (simp_all add: clip_written_range_def example_env_def)
  have st:
    "last_usage ((ready_state (0 :: nat))\<lparr>last_written_range := (8192, 4096)\<rparr>) =
       kTransferDestination"
    "last_written_range ((ready_state (0 :: nat))\<lparr>last_written_range := (8192, 4096)\<rparr>) =
       (8192, 4096)"
    "buffer ((ready_state (0 :: nat))\<lparr>last_written_range := (8192, 4096)\<rparr>) = 0xB0"
    "events ((ready_state (0 :: nat))\<lparr>last_written_range := (8192, 4096)\<rparr>) = []"
    "last_usage (ready_state (0 :: nat)) = kTransferDestination"
    "buffer (ready_state (0 :: nat)) = 0xB0"
    "events (ready_state (0 :: nat)) = []"
    by (simp_all add: ready_state_def)
  show ?thesis
    using Use_barrier_and_state [of ?env kTransferDestination "(0, 0)"
            "(ready_state 0)\<lparr>last_written_range := (8192, 4096)\<rparr>"]
          Use_barrier_and_state [of ?env kGuestDrawReadWrite "(4096, 0xFFFFFFFF)"
            "ready_state 0"]
    by (auto simp: gb clip st)
qed

section \<open>Properties of creation and teardown\<close>

lemma DestroyAndNullHandle_eq:
  "DestroyAndNullHandle s =
     s\<lparr>events := events s @
           (if buffer s \<noteq> VK_NULL_HANDLE then [VkDestroyBuffer (buffer s)] else []),
       buffer := VK_NULL_HANDLE\<rparr>"
  by (simp add: DestroyAndNullHandle_def)

lemma Shutdown_eq:
  "Shutdown s fd =
     s\<lparr>upload_buffer_pool := None,
       last_written_range := (0, 0),
       last_usage := kTransferDestination,
       buffer := VK_NULL_HANDLE,
       buffer_memory_allocated := [],
       buffer_memory := [],
       events := events s @
         (if buffer s \<noteq> VK_NULL_HANDLE then [VkDestroyBuffer (buffer s)] else []) @
         map VkFreeMemory (buffer_memory s) @ (if fd then [] else [CallShutdownCommon])\<rparr>"
  by (simp add: Shutdown_def DestroyAndNullHandle_eq Let_def)


lemma Shutdown_fields:
  "buffer (Shutdown s fd) = VK_NULL_HANDLE"
  "buffer_memory (Shutdown s fd) = []"
  "buffer_memory_allocated (Shutdown s fd) = []"
  "upload_buffer_pool (Shutdown s fd) = None"
  "last_usage (Shutdown s fd) = kTransferDestination"
  "last_written_range (Shutdown s fd) = (0, 0)"
  "upload_regions (Shutdown s fd) = upload_regions s"
  "buffer_memory_type (Shutdown s fd) = buffer_memory_type s"
  by (simp_all add: Shutdown_eq)

lemma Shutdown_events:
  "events (Shutdown s fd) =
     events s @ (if buffer s \<noteq> VK_NULL_HANDLE then [VkDestroyBuffer (buffer s)] else []) @
     map VkFreeMemory (buffer_memory s) @ (if fd then [] else [CallShutdownCommon])"
  by (simp add: Shutdown_eq)

lemma Shutdown_twice:
  "Shutdown (Shutdown s fd) fd' =
     (Shutdown s fd)\<lparr>events := events (Shutdown s fd) @ (if fd' then [] else [CallShutdownCommon])\<rparr>"
  by (simp add: Shutdown_eq)

lemma Initialize_unfold:
  "Initialize env s =
     (let created = vkCreateBuffer env 0 (ucast (kBufferSize env)) buffer_usage_bits;
          s1 = s\<lparr>events := events s @
                  [CallInitializeCommon,
                   VkCreateBuffer 0 (ucast (kBufferSize env)) buffer_usage_bits],
                buffer := snd created\<rparr>
      in if fst created \<noteq> VK_SUCCESS then (False, Shutdown s1 False)
         else
           (let requirements = vkGetBufferMemoryRequirements env (snd created);
                s2 = s1\<lparr>events := events s1 @ [VkGetBufferMemoryRequirements (snd created)]\<rparr>
            in case bit_scan_forward (snd requirements AND memory_types_device_local env) of
                 None \<Rightarrow> (False, Shutdown s2 False)
               | Some memory_type \<Rightarrow>
                   (let allocated = vkAllocateMemory env (fst requirements) memory_type;
                        s3 = s2\<lparr>buffer_memory_type := memory_type,
                                events := events s2 @
                                  [VkAllocateMemory (fst requirements) memory_type]\<rparr>
                    in if fst allocated \<noteq> VK_SUCCESS then (False, Shutdown s3 False)
                       else
                         (let s4 = s3\<lparr>buffer_memory := buffer_memory s @ [snd allocated],
                                       events := events s3 @
                                         [VkBindBufferMemory (snd created) (snd allocated) 0]\<rparr>
                          in if vkBindBufferMemory env (snd created) (snd allocated) 0 \<noteq>
                                VK_SUCCESS
                             then (False, Shutdown s4 False)
                             else (True, s4\<lparr>upload_buffer_pool :=
                                               Some (new_upload_buffer_pool env)\<rparr>)))))"
  by (simp add: Initialize_def Let_def split_def buffer_usage_bits_def split: option.split)


lemma filter_create_free [simp]: "filter is_VkCreateBuffer (map VkFreeMemory ms) = []"
  by (induction ms) simp_all

lemma Initialize_creates_once:
  "filter is_VkCreateBuffer (events (snd (Initialize env s))) =
     filter is_VkCreateBuffer (events s) @
     [VkCreateBuffer 0 (ucast (kBufferSize env)) buffer_usage_bits]"
  by (simp add: Initialize_unfold Let_def Shutdown_events split: option.split)

lemma Initialize_result: "fst (Initialize env s) = device_accepts env"
  by (simp add: Initialize_unfold device_accepts_def Let_def split: option.split)

lemma Initialize_failed_is_Shutdown:
  "\<not> fst (Initialize env s) \<Longrightarrow> \<exists>mid. snd (Initialize env s) = Shutdown mid False"
  unfolding Initialize_unfold Let_def
  by (simp split: option.splits if_splits; blast)

lemma filter_release_free [simp]: "filter is_release (map VkFreeMemory ms) = map VkFreeMemory ms"
  by (induction ms) simp_all

lemma Initialize_failed_unwinds_what_it_made:
  assumes failed: "\<not> fst (Initialize env s)"
  shows "\<exists>mid. snd (Initialize env s) = Shutdown mid False \<and>
           buffer mid = created_buffer env \<and>
           buffer_memory mid = buffer_memory s @ allocated_memory env \<and>
           filter is_release (events mid) = filter is_release (events s)"
proof -
  let ?created = "vkCreateBuffer env 0 (ucast (kBufferSize env)) buffer_usage_bits"
  let ?requirements = "vkGetBufferMemoryRequirements env (snd ?created)"
  let ?s1 = "s\<lparr>events := events s @
                  [CallInitializeCommon,
                   VkCreateBuffer 0 (ucast (kBufferSize env)) buffer_usage_bits],
                buffer := snd ?created\<rparr>"
  let ?s2 = "?s1\<lparr>events := events ?s1 @ [VkGetBufferMemoryRequirements (snd ?created)]\<rparr>"
  show ?thesis
  proof (cases "fst ?created \<noteq> VK_SUCCESS")
    case True
    then have "snd (Initialize env s) = Shutdown ?s1 False"
      by (simp add: Initialize_unfold Let_def)
    moreover from True have "allocated_memory env = []"
      by (simp add: allocated_memory_def Let_def)
    ultimately show ?thesis
      by (intro exI [of _ ?s1]) (simp add: created_buffer_def)
  next
    case created: False
    show ?thesis
    proof (cases "bit_scan_forward (snd ?requirements AND memory_types_device_local env)")
      case None
      with created have "snd (Initialize env s) = Shutdown ?s2 False"
        by (simp add: Initialize_unfold Let_def)
      moreover from created None have "allocated_memory env = []"
        by (simp add: allocated_memory_def Let_def)
      ultimately show ?thesis
        by (intro exI [of _ ?s2]) (simp add: created_buffer_def)
    next
      case (Some memory_type)
      let ?allocated = "vkAllocateMemory env (fst ?requirements) memory_type"
      let ?s3 = "?s2\<lparr>buffer_memory_type := memory_type,
                     events := events ?s2 @
                       [VkAllocateMemory (fst ?requirements) memory_type]\<rparr>"
      let ?s4 = "?s3\<lparr>buffer_memory := buffer_memory s @ [snd ?allocated],
                     events := events ?s3 @
                       [VkBindBufferMemory (snd ?created) (snd ?allocated) 0]\<rparr>"
      show ?thesis
      proof (cases "fst ?allocated \<noteq> VK_SUCCESS")
        case True
        with created Some have "snd (Initialize env s) = Shutdown ?s3 False"
          by (simp add: Initialize_unfold Let_def)
        moreover from created Some True have "allocated_memory env = []"
          by (simp add: allocated_memory_def Let_def)
        ultimately show ?thesis
          by (intro exI [of _ ?s3]) (simp add: created_buffer_def)
      next
        case allocated: False
        from failed created Some allocated
        have unbound: "vkBindBufferMemory env (snd ?created) (snd ?allocated) 0 \<noteq> VK_SUCCESS"
          by (auto simp: Initialize_unfold Let_def)
        with created Some allocated have "snd (Initialize env s) = Shutdown ?s4 False"
          by (simp add: Initialize_unfold Let_def)
        moreover from created Some allocated have "allocated_memory env = [snd ?allocated]"
          by (simp add: allocated_memory_def Let_def)
        ultimately show ?thesis
          by (intro exI [of _ ?s4]) (simp add: created_buffer_def)
      qed
    qed
  qed
qed

text \<open>
  Claim C7, as the code has it. \<^verbatim>\<open>Initialize\<close> calls \<^verbatim>\<open>vkCreateBuffer\<close> exactly once, with
  the flags 0: the flags never hold a sparse bit, so a failed creation is not retried.
  \<^verbatim>\<open>Initialize\<close> returns true exactly when creation, memory-type selection, allocation
  and binding all succeed. When it returns false, it has called \<^verbatim>\<open>Shutdown\<close> on a
  state that holds what the call constructed, and nothing of that is left: the buffer
  handle that the creation call stored is destroyed, once, if it is not null; every
  allocation of the list, which is the list at entry followed by the memory that this
  call allocated, is freed, once and in order; these are all the releases the call
  records; and the buffer handle is null, both allocation lists are empty and there is
  no pool.
\<close>

theorem Initialize_failure_unwinds:
  "filter is_VkCreateBuffer (events (snd (Initialize env s))) =
     filter is_VkCreateBuffer (events s) @
     [VkCreateBuffer 0 (ucast (kBufferSize env)) buffer_usage_bits] \<and>
   fst (Initialize env s) = device_accepts env \<and>
   (\<not> fst (Initialize env s) \<longrightarrow>
      (\<exists>mid. snd (Initialize env s) = Shutdown mid False \<and>
             buffer mid = created_buffer env \<and>
             buffer_memory mid = buffer_memory s @ allocated_memory env \<and>
             filter is_release (events mid) = filter is_release (events s)) \<and>
      filter is_release (events (snd (Initialize env s))) =
        filter is_release (events s) @
        (if created_buffer env \<noteq> VK_NULL_HANDLE
         then [VkDestroyBuffer (created_buffer env)] else []) @
        map VkFreeMemory (buffer_memory s @ allocated_memory env) \<and>
      buffer (snd (Initialize env s)) = VK_NULL_HANDLE \<and>
      buffer_memory (snd (Initialize env s)) = [] \<and>
      buffer_memory_allocated (snd (Initialize env s)) = [] \<and>
      upload_buffer_pool (snd (Initialize env s)) = None)"
proof -
  have unwound:
    "(\<exists>mid. snd (Initialize env s) = Shutdown mid False \<and>
            buffer mid = created_buffer env \<and>
            buffer_memory mid = buffer_memory s @ allocated_memory env \<and>
            filter is_release (events mid) = filter is_release (events s)) \<and>
     filter is_release (events (snd (Initialize env s))) =
       filter is_release (events s) @
       (if created_buffer env \<noteq> VK_NULL_HANDLE
        then [VkDestroyBuffer (created_buffer env)] else []) @
       map VkFreeMemory (buffer_memory s @ allocated_memory env) \<and>
     buffer (snd (Initialize env s)) = VK_NULL_HANDLE \<and>
     buffer_memory (snd (Initialize env s)) = [] \<and>
     buffer_memory_allocated (snd (Initialize env s)) = [] \<and>
     upload_buffer_pool (snd (Initialize env s)) = None"
    if failed: "\<not> fst (Initialize env s)"
  proof -
    from Initialize_failed_unwinds_what_it_made [OF failed] obtain mid where
      mid: "snd (Initialize env s) = Shutdown mid False"
        "buffer mid = created_buffer env"
        "buffer_memory mid = buffer_memory s @ allocated_memory env"
        "filter is_release (events mid) = filter is_release (events s)"
      by blast
    have releases: "filter is_release (events (snd (Initialize env s))) =
        filter is_release (events s) @
        (if created_buffer env \<noteq> VK_NULL_HANDLE
         then [VkDestroyBuffer (created_buffer env)] else []) @
        map VkFreeMemory (buffer_memory s @ allocated_memory env)"
      unfolding mid(1) Shutdown_events by (simp add: mid(2,3,4))
    have members: "buffer (snd (Initialize env s)) = VK_NULL_HANDLE"
      "buffer_memory (snd (Initialize env s)) = []"
      "buffer_memory_allocated (snd (Initialize env s)) = []"
      "upload_buffer_pool (snd (Initialize env s)) = None"
      unfolding mid(1) by (simp_all add: Shutdown_fields)
    from mid releases members show ?thesis by blast
  qed
  from unwound show ?thesis
    using Initialize_creates_once [of env s] Initialize_result [of env s]
    by blast
qed

text \<open>
  Claim C9. Every \<^verbatim>\<open>Shutdown\<close> leaves the buffer handle null, the allocation list
  empty and the usage state at transfer destination with the range (0, 0); it
  destroys the buffer only if the handle was set and frees each listed allocation
  once. A second \<^verbatim>\<open>Shutdown\<close> right after changes no member and releases nothing (it
  only repeats the base class's teardown when not called from the destructor), and the
  same holds for a \<^verbatim>\<open>Shutdown\<close> after an \<^verbatim>\<open>Initialize\<close> that failed.
\<close>

theorem Shutdown_idempotent:
  "buffer (Shutdown s fd) = VK_NULL_HANDLE \<and>
   buffer_memory (Shutdown s fd) = [] \<and>
   last_usage (Shutdown s fd) = kTransferDestination \<and>
   last_written_range (Shutdown s fd) = (0, 0) \<and>
   events (Shutdown s fd) =
     events s @ (if buffer s \<noteq> VK_NULL_HANDLE then [VkDestroyBuffer (buffer s)] else []) @
     map VkFreeMemory (buffer_memory s) @ (if fd then [] else [CallShutdownCommon]) \<and>
   Shutdown (Shutdown s fd) fd' =
     (Shutdown s fd)\<lparr>events := events (Shutdown s fd) @
                        (if fd' then [] else [CallShutdownCommon])\<rparr> \<and>
   (\<not> fst (Initialize env s) \<longrightarrow>
      buffer (snd (Initialize env s)) = VK_NULL_HANDLE \<and>
      Shutdown (snd (Initialize env s)) fd' =
        (snd (Initialize env s))\<lparr>events := events (snd (Initialize env s)) @
                                   (if fd' then [] else [CallShutdownCommon])\<rparr>)"
proof -
  have "buffer (snd (Initialize env s)) = VK_NULL_HANDLE \<and>
        Shutdown (snd (Initialize env s)) fd' =
          (snd (Initialize env s))\<lparr>events := events (snd (Initialize env s)) @
                                     (if fd' then [] else [CallShutdownCommon])\<rparr>"
    if "\<not> fst (Initialize env s)"
  proof -
    from that obtain mid where "snd (Initialize env s) = Shutdown mid False"
      using Initialize_failed_is_Shutdown by blast
    then show ?thesis by (simp add: Shutdown_fields Shutdown_twice)
  qed
  then show ?thesis
    by (simp add: Shutdown_fields Shutdown_events Shutdown_twice)
qed


lemma Initialize_failing_create:
  "Initialize failing_create_env idle_state =
     (False, idle_state\<lparr>events :=
        [CallInitializeCommon, VkCreateBuffer 0 0x20000000 0x63, CallShutdownCommon]\<rparr>)"
  by (simp add: Initialize_unfold failing_create_env_def example_env_def idle_state_def
        Shutdown_eq Let_def buffer_usage_bits_def VK_SUCCESS_def VK_NULL_HANDLE_def
        VK_BUFFER_USAGE_TRANSFER_SRC_BIT_def VK_BUFFER_USAGE_TRANSFER_DST_BIT_def
        VK_BUFFER_USAGE_STORAGE_BUFFER_BIT_def VK_BUFFER_USAGE_INDEX_BUFFER_BIT_def)

lemma bit_scan_forward_4: "bit_scan_forward 4 = Some 2"
  by (simp add: bit_scan_forward_def upt_rec bit_numeral_rec)

lemma Initialize_failing_bind:
  "Initialize failing_bind_env idle_state =
     (False, idle_state\<lparr>buffer_memory_type := 2, events :=
        [CallInitializeCommon, VkCreateBuffer 0 0x20000000 0x63,
         VkGetBufferMemoryRequirements 0xB0, VkAllocateMemory 0x20000000 2,
         VkBindBufferMemory 0xB0 0xA0 0, VkDestroyBuffer 0xB0, VkFreeMemory 0xA0,
         CallShutdownCommon]\<rparr>)"
  by (simp add: Initialize_unfold failing_bind_env_def example_env_def idle_state_def
        Shutdown_eq Let_def buffer_usage_bits_def VK_SUCCESS_def VK_NULL_HANDLE_def
        bit_scan_forward_4
        VK_BUFFER_USAGE_TRANSFER_SRC_BIT_def VK_BUFFER_USAGE_TRANSFER_DST_BIT_def
        VK_BUFFER_USAGE_STORAGE_BUFFER_BIT_def VK_BUFFER_USAGE_INDEX_BUFFER_BIT_def)

text \<open>
  Against claim C7 as stated: with a driver whose first \<^verbatim>\<open>vkCreateBuffer\<close> fails,
  \<^verbatim>\<open>Initialize\<close> records that one call and goes straight to \<^verbatim>\<open>Shutdown\<close>; there is no
  second attempt.
\<close>

theorem Initialize_no_retry_counterexample:
  "fst (vkCreateBuffer failing_create_env 0 (ucast (kBufferSize failing_create_env))
          buffer_usage_bits) \<noteq> VK_SUCCESS \<and>
   Initialize failing_create_env idle_state =
     (False, idle_state\<lparr>events :=
        [CallInitializeCommon, VkCreateBuffer 0 0x20000000 0x63, CallShutdownCommon]\<rparr>)"
  by (simp add: Initialize_failing_create)
     (simp add: failing_create_env_def example_env_def VK_SUCCESS_def)

text \<open>
  The theorem at work on a driver whose binding fails: the buffer that was created
  and the memory that was allocated are released, each once, and nothing is left of
  them in the members.
\<close>

theorem Initialize_failure_unwinds_witness:
  "\<not> fst (Initialize failing_bind_env idle_state) \<and>
   created_buffer failing_bind_env = 0xB0 \<and>
   allocated_memory failing_bind_env = [0xA0] \<and>
   events (snd (Initialize failing_bind_env idle_state)) =
     [CallInitializeCommon, VkCreateBuffer 0 0x20000000 0x63,
      VkGetBufferMemoryRequirements 0xB0, VkAllocateMemory 0x20000000 2,
      VkBindBufferMemory 0xB0 0xA0 0, VkDestroyBuffer 0xB0, VkFreeMemory 0xA0,
      CallShutdownCommon] \<and>
   filter is_release (events (snd (Initialize failing_bind_env idle_state))) =
     [VkDestroyBuffer 0xB0, VkFreeMemory 0xA0] \<and>
   buffer (snd (Initialize failing_bind_env idle_state)) = VK_NULL_HANDLE \<and>
   buffer_memory (snd (Initialize failing_bind_env idle_state)) = [] \<and>
   buffer_memory_allocated (snd (Initialize failing_bind_env idle_state)) = [] \<and>
   upload_buffer_pool (snd (Initialize failing_bind_env idle_state)) = None"
proof -
  have failed: "\<not> fst (Initialize failing_bind_env idle_state)"
    by (simp add: Initialize_failing_bind)
  have recorded: "events (snd (Initialize failing_bind_env idle_state)) =
     [CallInitializeCommon, VkCreateBuffer 0 0x20000000 0x63,
      VkGetBufferMemoryRequirements 0xB0, VkAllocateMemory 0x20000000 2,
      VkBindBufferMemory 0xB0 0xA0 0, VkDestroyBuffer 0xB0, VkFreeMemory 0xA0,
      CallShutdownCommon]"
    by (simp add: Initialize_failing_bind)
  have created: "created_buffer failing_bind_env = 0xB0"
    by (simp add: created_buffer_def failing_bind_env_def example_env_def)
  have allocated: "allocated_memory failing_bind_env = [0xA0]"
    by (simp add: allocated_memory_def failing_bind_env_def example_env_def Let_def
          VK_SUCCESS_def bit_scan_forward_4)
  have before: "filter is_release (events idle_state) = []" "buffer_memory idle_state = []"
    by (simp_all add: idle_state_def)
  have handle: "(0xB0 :: u64) \<noteq> VK_NULL_HANDLE"
    by (simp add: VK_NULL_HANDLE_def)
  from failed Initialize_failure_unwinds [of failing_bind_env idle_state]
  have "filter is_release (events (snd (Initialize failing_bind_env idle_state))) =
          filter is_release (events idle_state) @
          (if created_buffer failing_bind_env \<noteq> VK_NULL_HANDLE
           then [VkDestroyBuffer (created_buffer failing_bind_env)] else []) @
          map VkFreeMemory (buffer_memory idle_state @ allocated_memory failing_bind_env)"
    and members: "buffer (snd (Initialize failing_bind_env idle_state)) = VK_NULL_HANDLE"
      "buffer_memory (snd (Initialize failing_bind_env idle_state)) = []"
      "buffer_memory_allocated (snd (Initialize failing_bind_env idle_state)) = []"
      "upload_buffer_pool (snd (Initialize failing_bind_env idle_state)) = None"
    by blast+
  then have releases:
    "filter is_release (events (snd (Initialize failing_bind_env idle_state))) =
       [VkDestroyBuffer 0xB0, VkFreeMemory 0xA0]"
    by (simp add: created allocated before handle)
  from failed created allocated recorded releases members show ?thesis by blast
qed

text \<open>
  The theorem at work: an initialized object shut down twice, and a
  \<^verbatim>\<open>Shutdown\<close> from the destructor after an \<^verbatim>\<open>Initialize\<close> whose binding failed.
\<close>

theorem Shutdown_idempotent_witness:
  "events (Shutdown (ready_state (0 :: nat)) False) =
     [VkDestroyBuffer 0xB0, VkFreeMemory 0xA0, CallShutdownCommon] \<and>
   events (Shutdown (Shutdown (ready_state (0 :: nat)) False) False) =
     [VkDestroyBuffer 0xB0, VkFreeMemory 0xA0, CallShutdownCommon, CallShutdownCommon] \<and>
   buffer (Shutdown (ready_state (0 :: nat)) False) = VK_NULL_HANDLE \<and>
   buffer (Shutdown (Shutdown (ready_state (0 :: nat)) False) False) = VK_NULL_HANDLE \<and>
   \<not> fst (Initialize failing_bind_env idle_state) \<and>
   events (Shutdown (snd (Initialize failing_bind_env idle_state)) True) =
     events (snd (Initialize failing_bind_env idle_state))"
proof -
  have failed: "\<not> fst (Initialize failing_bind_env idle_state)"
    by (simp add: Initialize_failing_bind)
  have ready: "buffer (ready_state (0 :: nat)) = 0xB0"
    "buffer_memory (ready_state (0 :: nat)) = [0xA0]"
    "events (ready_state (0 :: nat)) = []"
    by (simp_all add: ready_state_def)
  have handle: "(0xB0 :: u64) \<noteq> VK_NULL_HANDLE"
    by (simp add: VK_NULL_HANDLE_def)
  note first = Shutdown_idempotent [of "ready_state (0 :: nat)" False False failing_bind_env]
  note second = Shutdown_idempotent [of "Shutdown (ready_state (0 :: nat)) False" False False
      failing_bind_env]
  note after_failure = Shutdown_idempotent [of idle_state False True failing_bind_env]
  from first have recorded:
    "events (Shutdown (ready_state (0 :: nat)) False) =
       [VkDestroyBuffer 0xB0, VkFreeMemory 0xA0, CallShutdownCommon]"
    by (simp add: ready handle)
  from first have "Shutdown (Shutdown (ready_state (0 :: nat)) False) False =
      (Shutdown (ready_state (0 :: nat)) False)\<lparr>events :=
         events (Shutdown (ready_state (0 :: nat)) False) @ [CallShutdownCommon]\<rparr>"
    by simp
  then have "events (Shutdown (Shutdown (ready_state (0 :: nat)) False) False) =
      events (Shutdown (ready_state (0 :: nat)) False) @ [CallShutdownCommon]"
    by simp
  then have recorded_twice:
    "events (Shutdown (Shutdown (ready_state (0 :: nat)) False) False) =
       [VkDestroyBuffer 0xB0, VkFreeMemory 0xA0, CallShutdownCommon, CallShutdownCommon]"
    by (simp add: recorded)
  from first have cleared: "buffer (Shutdown (ready_state (0 :: nat)) False) = VK_NULL_HANDLE"
    by blast
  from second have cleared_twice:
    "buffer (Shutdown (Shutdown (ready_state (0 :: nat)) False) False) = VK_NULL_HANDLE"
    by blast
  from after_failure failed have
    "Shutdown (snd (Initialize failing_bind_env idle_state)) True =
       (snd (Initialize failing_bind_env idle_state))\<lparr>events :=
          events (snd (Initialize failing_bind_env idle_state)) @ []\<rparr>"
    by simp
  then have nothing_released:
    "events (Shutdown (snd (Initialize failing_bind_env idle_state)) True) =
       events (snd (Initialize failing_bind_env idle_state))"
    by simp
  show ?thesis
    using recorded recorded_twice cleared cleared_twice failed nothing_released by blast
qed

section \<open>The upload scheduler: one pass, the loops and their invariant\<close>

lemma upload_chunk_no_pool:
  "upload_buffer_pool s = None \<Longrightarrow>
   upload_chunk env s prev start len = Break (Inl NullPointerDereference)"
  by (simp add: upload_chunk_def)

lemma upload_chunk_refused:
  assumes "upload_buffer_pool s = Some pool" "pool_answer env pool len = (a, pool')"
    "upload_buffer_mapping a = nullptr"
  shows "upload_chunk env s prev start len =
           Break (Inr (False,
             s\<lparr>upload_buffer_pool := Some pool',
               events := events s @ [request_event env len a]\<rparr>, prev))"
  using assms
  by (simp add: upload_chunk_def pool_answer_def request_event_def request_size_def Let_def)

lemma upload_chunk_assert:
  assumes "upload_buffer_pool s = Some pool" "pool_answer env pool len = (a, pool')"
    "upload_buffer_mapping a \<noteq> nullptr"
    "prev \<noteq> upload_buffer a" "upload_regions s \<noteq> []"
    "asserts_enabled env" "prev = VK_NULL_HANDLE"
  shows "upload_chunk env s prev start len = Break (Inl AssertionFailed)"
  using assms
  by (simp add: upload_chunk_def pool_answer_def request_event_def request_size_def Let_def)

lemma upload_chunk_flush:
  assumes "upload_buffer_pool s = Some pool" "pool_answer env pool len = (a, pool')"
    "upload_buffer_mapping a \<noteq> nullptr"
    "prev \<noteq> upload_buffer a" "upload_regions s \<noteq> []"
    "\<not> (asserts_enabled env \<and> prev = VK_NULL_HANDLE)"
  shows "upload_chunk env s prev start len =
           Continue
             (s\<lparr>upload_buffer_pool := Some pool',
                events := events s @ chunk_events env start len a @
                  [CmdVkCopyBuffer prev (buffer s) (upload_regions s)],
                upload_regions := [chunk_region env start a]\<rparr>)
             (upload_buffer a) (start + chunk_pages env a) (len - chunk_pages env a)"
  using assms
  by (auto simp add: upload_chunk_def pool_answer_def request_event_def request_size_def Let_def
        chunk_events_def chunk_region_def chunk_pages_def)

lemma upload_chunk_append:
  assumes "upload_buffer_pool s = Some pool" "pool_answer env pool len = (a, pool')"
    "upload_buffer_mapping a \<noteq> nullptr"
    "prev = upload_buffer a \<or> upload_regions s = []"
  shows "upload_chunk env s prev start len =
           Continue
             (s\<lparr>upload_buffer_pool := Some pool',
                events := events s @ chunk_events env start len a,
                upload_regions := upload_regions s @ [chunk_region env start a]\<rparr>)
             (upload_buffer a) (start + chunk_pages env a) (len - chunk_pages env a)"
  using assms
  by (auto simp add: upload_chunk_def pool_answer_def request_event_def request_size_def Let_def
        chunk_events_def chunk_region_def chunk_pages_def)


lemma upload_chunk_cases:
  obtains
    (no_pool) "upload_buffer_pool s = None"
      "upload_chunk env s prev start len = Break (Inl NullPointerDereference)"
  | (refused) pool a pool' where
      "upload_buffer_pool s = Some pool" "pool_answer env pool len = (a, pool')"
      "upload_buffer_mapping a = nullptr"
      "upload_chunk env s prev start len =
         Break (Inr (False,
           s\<lparr>upload_buffer_pool := Some pool',
             events := events s @ [request_event env len a]\<rparr>, prev))"
  | (assert) pool a pool' where
      "upload_buffer_pool s = Some pool" "pool_answer env pool len = (a, pool')"
      "upload_buffer_mapping a \<noteq> nullptr"
      "prev \<noteq> upload_buffer a" "upload_regions s \<noteq> []"
      "asserts_enabled env" "prev = VK_NULL_HANDLE"
      "upload_chunk env s prev start len = Break (Inl AssertionFailed)"
  | (flush) pool a pool' where
      "upload_buffer_pool s = Some pool" "pool_answer env pool len = (a, pool')"
      "upload_buffer_mapping a \<noteq> nullptr"
      "prev \<noteq> upload_buffer a" "upload_regions s \<noteq> []"
      "\<not> (asserts_enabled env \<and> prev = VK_NULL_HANDLE)"
      "upload_chunk env s prev start len =
         Continue
           (s\<lparr>upload_buffer_pool := Some pool',
              events := events s @ chunk_events env start len a @
                [CmdVkCopyBuffer prev (buffer s) (upload_regions s)],
              upload_regions := [chunk_region env start a]\<rparr>)
           (upload_buffer a) (start + chunk_pages env a) (len - chunk_pages env a)"
  | (append) pool a pool' where
      "upload_buffer_pool s = Some pool" "pool_answer env pool len = (a, pool')"
      "upload_buffer_mapping a \<noteq> nullptr"
      "prev = upload_buffer a \<or> upload_regions s = []"
      "upload_chunk env s prev start len =
         Continue
           (s\<lparr>upload_buffer_pool := Some pool',
              events := events s @ chunk_events env start len a,
              upload_regions := upload_regions s @ [chunk_region env start a]\<rparr>)
           (upload_buffer a) (start + chunk_pages env a) (len - chunk_pages env a)"
proof (cases "upload_buffer_pool s")
  case None
  show ?thesis by (rule no_pool [OF None upload_chunk_no_pool [OF None]])
next
  case (Some pool)
  obtain a pool' where answer: "pool_answer env pool len = (a, pool')"
    by (cases "pool_answer env pool len")
  show ?thesis
  proof (cases "upload_buffer_mapping a = nullptr")
    case True
    show ?thesis
      by (rule refused [OF Some answer True upload_chunk_refused [OF Some answer True]])
  next
    case granted: False
    show ?thesis
    proof (cases "prev = upload_buffer a \<or> upload_regions s = []")
      case True
      show ?thesis
        by (rule append [OF Some answer granted True
              upload_chunk_append [OF Some answer granted True]])
    next
      case False
      then have change: "prev \<noteq> upload_buffer a" "upload_regions s \<noteq> []" by auto
      show ?thesis
      proof (cases "asserts_enabled env \<and> prev = VK_NULL_HANDLE")
        case True
        then have fails: "asserts_enabled env" "prev = VK_NULL_HANDLE" by auto
        show ?thesis
          by (rule assert [OF Some answer granted change fails
                upload_chunk_assert [OF Some answer granted change fails]])
      next
        case False
        show ?thesis
          by (rule flush [OF Some answer granted change False
                upload_chunk_flush [OF Some answer granted change False]])
      qed
    qed
  qed
qed

lemmas upload_chunks_induct = upload_chunks.raw_induct [rotated 1, consumes 1, case_names pass]

text \<open>The rule of the while loop: an invariant of the passes holds of what the loop returns.\<close>

lemma upload_chunks_rule_aux:
  assumes step: "\<And>s prev start len s2 prev2 start2 len2.
        I s prev \<Longrightarrow> len \<noteq> 0 \<Longrightarrow>
        upload_chunk env s prev start len = Continue s2 prev2 start2 len2 \<Longrightarrow> I s2 prev2"
    and stop: "\<And>s prev start len r.
        I s prev \<Longrightarrow> len \<noteq> 0 \<Longrightarrow> upload_chunk env s prev start len = Break r \<Longrightarrow> Q r"
  shows "upload_chunks env' s prev start len = Some r \<Longrightarrow> env' = env \<Longrightarrow> I s prev \<Longrightarrow>
         (\<exists>s' prev'. r = Inr (True, s', prev') \<and> I s' prev') \<or> Q r"
proof (induction rule: upload_chunks_induct)
  case (pass loop env' s prev start len r)
  note env = \<open>env' = env\<close> and inv = \<open>I s prev\<close>
  show ?case
  proof (cases "len = 0")
    case True
    with pass.hyps inv show ?thesis by auto
  next
    case nonzero: False
    show ?thesis
    proof (cases "upload_chunk env s prev start len")
      case (Break r')
      with pass.hyps nonzero env have "r = r'" by simp
      with stop [OF inv nonzero Break] show ?thesis by simp
    next
      case (Continue s2 prev2 start2 len2)
      with pass.hyps nonzero env have "loop env' s2 prev2 start2 len2 = Some r" by simp
      moreover have "I s2 prev2" using step [OF inv nonzero Continue] .
      ultimately show ?thesis using pass.IH env by blast
    qed
  qed
qed

lemma upload_chunks_rule:
  assumes run: "upload_chunks env s prev start len = Some r"
    and init: "I s prev"
    and step: "\<And>s prev start len s2 prev2 start2 len2.
        I s prev \<Longrightarrow> len \<noteq> 0 \<Longrightarrow>
        upload_chunk env s prev start len = Continue s2 prev2 start2 len2 \<Longrightarrow> I s2 prev2"
    and stop: "\<And>s prev start len r.
        I s prev \<Longrightarrow> len \<noteq> 0 \<Longrightarrow> upload_chunk env s prev start len = Break r \<Longrightarrow> Q r"
  shows "(\<exists>s' prev'. r = Inr (True, s', prev') \<and> I s' prev') \<or> Q r"
proof (rule upload_chunks_rule_aux [where I = I and Q = Q, OF _ _ run refl init])
  show "I s2 prev2"
    if "I s prev" "len \<noteq> 0" "upload_chunk env s prev start len = Continue s2 prev2 start2 len2"
    for s prev start len s2 prev2 start2 len2
    using step that by blast
  show "Q r" if "I s prev" "len \<noteq> 0" "upload_chunk env s prev start len = Break r"
    for s prev start len r
    using stop that by blast
qed

lemma runs_eq_Nil [simp]: "runs xs = [] \<longleftrightarrow> xs = []"
  by (induction xs rule: runs.induct) (auto split: list.splits)

lemma runs_snoc:
  "runs (xs @ [(k, v)]) =
     (if xs = [] then [(k, [v])]
      else if fst (last (runs xs)) = k
           then butlast (runs xs) @ [(k, snd (last (runs xs)) @ [v])]
           else runs xs @ [(k, [v])])"
proof (induction xs rule: runs.induct)
  case 1
  show ?case by simp
next
  case (2 k0 v0 xs)
  show ?case
  proof (cases "xs = []")
    case True
    then show ?thesis by simp
  next
    case False
    then have ne: "runs xs \<noteq> []" by simp
    then obtain k1 vs1 rest where rx: "runs xs = (k1, vs1) # rest"
      by (cases "runs xs") auto
    show ?thesis
      using "2.IH" False rx
      by (cases rest) (auto split: list.splits if_splits)
  qed
qed

lemma runs_snoc_same:
  "runs xs = cs @ [(p, regs)] \<Longrightarrow> runs (xs @ [(p, r)]) = cs @ [(p, regs @ [r])]"
  by (cases "xs = []") (simp_all add: runs_snoc)

lemma runs_snoc_other:
  "runs xs = cs @ [(p, regs)] \<Longrightarrow> p \<noteq> b \<Longrightarrow>
   runs (xs @ [(b, r)]) = cs @ [(p, regs), (b, [r])]"
  by (cases "xs = []") (simp_all add: runs_snoc)

lemma concat_runs: "concat (map (\<lambda>(k, vs). map (Pair k) vs) (runs xs)) = xs"
  by (induction xs rule: runs.induct) (auto split: list.splits)

lemma runs_nonempty: "(k, vs) \<in> set (runs xs) \<Longrightarrow> vs \<noteq> []"
  by (induction xs arbitrary: k vs rule: runs.induct) (auto split: list.splits if_splits)


lemma projections_append [simp]:
  "memory_reads (es @ es') = memory_reads es @ memory_reads es'"
  "pool_answers (es @ es') = pool_answers es @ pool_answers es'"
  "granted (es @ es') = granted es @ granted es'"
  "memcpy_sources (es @ es') = memcpy_sources es @ memcpy_sources es'"
  "copy_commands (es @ es') = copy_commands es @ copy_commands es'"
  by (simp_all add: memory_reads_def pool_answers_def granted_def memcpy_sources_def
        copy_commands_def)

lemma projections_Nil [simp]:
  "memory_reads [] = []" "pool_answers [] = []" "granted [] = []" "memcpy_sources [] = []"
  "copy_commands [] = []" "staged_chunks [] = []"
  by (simp_all add: memory_reads_def pool_answers_def granted_def memcpy_sources_def
        copy_commands_def staged_chunks_def)

lemma projections_chunk_events [simp]:
  "memory_reads (chunk_events env start len a) = []"
  "pool_answers (chunk_events env start len a) = [a]"
  "memcpy_sources (chunk_events env start len a) = [push_bit (page_size_log2 env) start]"
  "copy_commands (chunk_events env start len a) = []"
  "filter is_barrier (chunk_events env start len a) = []"
  by (simp_all add: memory_reads_def pool_answers_def memcpy_sources_def
        copy_commands_def chunk_events_def request_event_def)

lemma granted_chunk_events [simp]:
  "upload_buffer_mapping a \<noteq> nullptr \<Longrightarrow> granted (chunk_events env start len a) = [a]"
  by (simp add: granted_def)

lemma projections_request_event [simp]:
  "memory_reads [request_event env len a] = []"
  "pool_answers [request_event env len a] = [a]"
  "memcpy_sources [request_event env len a] = []"
  "copy_commands [request_event env len a] = []"
  "filter is_barrier [request_event env len a] = []"
  by (simp_all add: memory_reads_def pool_answers_def memcpy_sources_def
        copy_commands_def request_event_def)

lemma projections_copy [simp]:
  "memory_reads [CmdVkCopyBuffer src dst regions] = []"
  "pool_answers [CmdVkCopyBuffer src dst regions] = []"
  "granted [CmdVkCopyBuffer src dst regions] = []"
  "memcpy_sources [CmdVkCopyBuffer src dst regions] = []"
  "copy_commands [CmdVkCopyBuffer src dst regions] = [(src, dst, regions)]"
  by (simp_all add: memory_reads_def pool_answers_def granted_def memcpy_sources_def
        copy_commands_def)

lemma projections_read [simp]:
  "memory_reads [WriteMemoryRead address n] = [(address, n)]"
  "pool_answers [WriteMemoryRead address n] = []"
  "granted [WriteMemoryRead address n] = []"
  "memcpy_sources [WriteMemoryRead address n] = []"
  "copy_commands [WriteMemoryRead address n] = []"
  by (simp_all add: memory_reads_def pool_answers_def granted_def memcpy_sources_def
        copy_commands_def)

lemma staged_chunks_append:
  "length (granted es) = length (memcpy_sources es) \<Longrightarrow>
   staged_chunks (es @ es') = staged_chunks es @ staged_chunks es'"
  by (simp add: staged_chunks_def)

lemma staged_chunks_no_grant [simp]:
  "granted es = [] \<Longrightarrow> staged_chunks es = []"
  by (simp add: staged_chunks_def)

lemma staged_chunks_chunk_events [simp]:
  "upload_buffer_mapping a \<noteq> nullptr \<Longrightarrow>
   staged_chunks (chunk_events env start len a) = [(upload_buffer a, chunk_region env start a)]"
  by (simp add: staged_chunks_def chunk_region_def)

lemma staging_inv_refl: "upload_regions s = [] \<Longrightarrow> staging_inv s s prev"
  by (simp add: staging_inv_def pending_def)

lemma staging_inv_notify:
  assumes "staging_inv s0 s prev"
  shows "staging_inv s0 (s\<lparr>events := events s @ [WriteMemoryRead address n]\<rparr>) prev"
proof -
  from assms obtain new where new: "events s = events s0 @ new"
    "buffer s = buffer s0" "last_usage s = last_usage s0"
    "last_written_range s = last_written_range s0"
    "filter is_barrier new = []"
    "pool_answers new = granted new"
    "length (granted new) = length (memcpy_sources new)"
    "runs (staged_chunks new) =
       map (\<lambda>(src, dst, regions). (src, regions)) (copy_commands new) @ pending s prev"
    "upload_regions s = [] \<longrightarrow> staged_chunks new = []"
    "\<forall>c \<in> set (copy_commands new). fst (snd c) = buffer s0"
    unfolding staging_inv_def by blast
  have staged: "staged_chunks (new @ [WriteMemoryRead address n]) = staged_chunks new"
    using new(7) by (simp add: staged_chunks_append)
  show ?thesis
    unfolding staging_inv_def
    apply (rule exI [of _ "new @ [WriteMemoryRead address n]"])
    using new staged by (simp add: pending_def)
qed


lemma staging_inv_pass:
  assumes inv: "staging_inv s0 s prev"
    and pass: "upload_chunk env s prev start len = Continue s2 prev2 start2 len2"
  shows "staging_inv s0 s2 prev2"
proof -
  from inv obtain new where new: "events s = events s0 @ new"
    "buffer s = buffer s0" "last_usage s = last_usage s0"
    "last_written_range s = last_written_range s0"
    "filter is_barrier new = []"
    "pool_answers new = granted new"
    "length (granted new) = length (memcpy_sources new)"
    "runs (staged_chunks new) =
       map (\<lambda>(src, dst, regions). (src, regions)) (copy_commands new) @ pending s prev"
    "upload_regions s = [] \<longrightarrow> staged_chunks new = []"
    "\<forall>c \<in> set (copy_commands new). fst (snd c) = buffer s0"
    unfolding staging_inv_def by blast
  show ?thesis
  proof (cases rule: upload_chunk_cases [of s env prev start len])
    case no_pool
    with pass show ?thesis by simp
  next
    case (refused pool a pool')
    with pass show ?thesis by simp
  next
    case (assert pool a pool')
    with pass show ?thesis by simp
  next
    case (flush pool a pool')
    let ?new = "new @ chunk_events env start len a @
                  [CmdVkCopyBuffer prev (buffer s) (upload_regions s)]"
    from flush pass have s2: "s2 = s\<lparr>upload_buffer_pool := Some pool',
              events := events s @ chunk_events env start len a @
                [CmdVkCopyBuffer prev (buffer s) (upload_regions s)],
              upload_regions := [chunk_region env start a]\<rparr>"
      and prev2: "prev2 = upload_buffer a"
      by simp_all
    have granted_new: "granted ?new = granted new @ [a]"
      using flush(3) by simp
    have staged: "staged_chunks ?new =
        staged_chunks new @ [(upload_buffer a, chunk_region env start a)]"
      using new(7) flush(3) by (simp add: staged_chunks_append)
    from new(8) flush(5) have "runs (staged_chunks new) =
        map (\<lambda>(src, dst, regions). (src, regions)) (copy_commands new) @
        [(prev, upload_regions s)]"
      by (simp add: pending_def)
    from runs_snoc_other [OF this flush(4), of "chunk_region env start a"]
    have runs: "runs (staged_chunks ?new) =
        map (\<lambda>(src, dst, regions). (src, regions)) (copy_commands ?new) @
        [(upload_buffer a, [chunk_region env start a])]"
      by (simp add: staged)
    show ?thesis
      unfolding staging_inv_def
      apply (rule exI [of _ ?new])
      using new granted_new runs flush(3)
      by (simp add: s2 prev2 pending_def staged)
  next
    case (append pool a pool')
    let ?new = "new @ chunk_events env start len a"
    from append pass have s2: "s2 = s\<lparr>upload_buffer_pool := Some pool',
              events := events s @ chunk_events env start len a,
              upload_regions := upload_regions s @ [chunk_region env start a]\<rparr>"
      and prev2: "prev2 = upload_buffer a"
      by simp_all
    have granted_new: "granted ?new = granted new @ [a]"
      using append(3) by simp
    have staged: "staged_chunks ?new =
        staged_chunks new @ [(upload_buffer a, chunk_region env start a)]"
      using new(7) append(3) by (simp add: staged_chunks_append)
    have runs: "runs (staged_chunks ?new) =
        map (\<lambda>(src, dst, regions). (src, regions)) (copy_commands ?new) @
        [(upload_buffer a, upload_regions s @ [chunk_region env start a])]"
    proof (cases "upload_regions s = []")
      case True
      with new(8,9) have "staged_chunks new = []" "copy_commands new = []"
        by (simp_all add: pending_def)
      with True show ?thesis by (simp add: staged)
    next
      case False
      with append(4) have same: "prev = upload_buffer a" by simp
      from new(8) False have "runs (staged_chunks new) =
          map (\<lambda>(src, dst, regions). (src, regions)) (copy_commands new) @
          [(upload_buffer a, upload_regions s)]"
        by (simp add: pending_def same)
      from runs_snoc_same [OF this, of "chunk_region env start a"]
      show ?thesis by (simp add: staged)
    qed
    show ?thesis
      unfolding staging_inv_def
      apply (rule exI [of _ ?new])
      using new granted_new runs append(3)
      by (simp add: s2 prev2 pending_def staged)
  qed
qed

lemma staging_inv_break:
  assumes inv: "staging_inv s0 s prev"
    and pass: "upload_chunk env s prev start len = Break r"
  shows "\<forall>ok s' prev'. r = Inr (ok, s', prev') \<longrightarrow> \<not> ok \<and> refused_inv env s0 s' prev'"
proof (cases rule: upload_chunk_cases [of s env prev start len])
  case no_pool
  with pass show ?thesis by auto
next
  case (refused pool a pool')
  with pass have r: "r = Inr (False,
           s\<lparr>upload_buffer_pool := Some pool',
             events := events s @ [request_event env len a]\<rparr>, prev)"
    by simp
  have "refused_inv env s0
          (s\<lparr>upload_buffer_pool := Some pool',
             events := events s @ [request_event env len a]\<rparr>) prev"
    unfolding refused_inv_def
    apply (rule exI [of _ s], rule exI [of _ a], rule exI [of _ len])
    using inv refused(3) by simp
  with r show ?thesis by simp
next
  case (assert pool a pool')
  with pass show ?thesis by auto
next
  case (flush pool a pool')
  with pass show ?thesis by simp
next
  case (append pool a pool')
  with pass show ?thesis by simp
qed


lemma upload_chunks_staging:
  assumes run: "upload_chunks env s prev start len = Some r"
    and inv: "staging_inv s0 s prev"
  shows "(\<exists>s' prev'. r = Inr (True, s', prev') \<and> staging_inv s0 s' prev') \<or>
         (\<forall>ok s' prev'. r = Inr (ok, s', prev') \<longrightarrow> \<not> ok \<and> refused_inv env s0 s' prev')"
proof (rule upload_chunks_rule [OF run, where I = "staging_inv s0", OF inv])
  show "staging_inv s0 s2 prev2"
    if "staging_inv s0 s prev" "len \<noteq> 0"
      "upload_chunk env s prev start len = Continue s2 prev2 start2 len2"
    for s prev start len s2 prev2 start2 len2
    using staging_inv_pass that by blast
  show "\<forall>ok s' prev'. r = Inr (ok, s', prev') \<longrightarrow> \<not> ok \<and> refused_inv env s0 s' prev'"
    if "staging_inv s0 s prev" "len \<noteq> 0" "upload_chunk env s prev start len = Break r"
    for s prev start len r
    using staging_inv_break that by blast
qed

lemma upload_ranges_loop_staging:
  assumes "upload_ranges_loop env s prev rs = Some (Inr (ok, s', prev'))"
    and "staging_inv s0 s prev"
  shows "if ok then staging_inv s0 s' prev' else refused_inv env s0 s' prev'"
  using assms
proof (induction rs arbitrary: s prev)
  case Nil
  then show ?case by simp
next
  case (Cons range rs)
  let ?s1 = "s\<lparr>events := events s @
                [WriteMemoryRead (push_bit (page_size_log2 env) (fst range))
                   (push_bit (page_size_log2 env) (snd range))]\<rparr>"
  have inv1: "staging_inv s0 ?s1 prev"
    using Cons.prems(2) by (rule staging_inv_notify)
  from Cons.prems(1) obtain r where chunks: "upload_chunks env ?s1 prev (fst range) (snd range) = Some r"
    by (cases "upload_chunks env ?s1 prev (fst range) (snd range)") (simp_all add: Let_def)
  from Cons.prems(1) chunks obtain successful s2 prev2 where r: "r = Inr (successful, s2, prev2)"
    by (cases r) (auto simp: Let_def)
  note cases = upload_chunks_staging [OF chunks inv1]
  show ?case
  proof (cases successful)
    case True
    with cases r have inv2: "staging_inv s0 s2 prev2" by auto
    from Cons.prems(1) chunks r True
    have "upload_ranges_loop env s2 prev2 rs = Some (Inr (ok, s', prev'))"
      by (simp add: Let_def)
    from Cons.IH [OF this inv2] show ?thesis .
  next
    case False
    with Cons.prems(1) chunks r have "ok = False" "s' = s2" "prev' = prev2"
      by (simp_all add: Let_def)
    moreover from cases r False have "refused_inv env s0 s2 prev2" by auto
    ultimately show ?thesis by simp
  qed
qed

lemma UploadRanges_returns_cases:
  assumes "UploadRanges env s rs = Some (Inr (ok, s'))" "rs \<noteq> []"
  obtains s1 s2 prev where
    "Use env s kTransferDestination (upload_span env rs) = Inr s1"
    "upload_ranges_loop env (s1\<lparr>upload_regions := []\<rparr>) VK_NULL_HANDLE rs =
       Some (Inr (ok, s2, prev))"
    "s' = final_flush s2 prev"
proof -
  from assms obtain s1 where use: "Use env s kTransferDestination (upload_span env rs) = Inr s1"
    by (cases "Use env s kTransferDestination (upload_span env rs)")
       (simp_all add: UploadRanges_def upload_span_def)
  from assms use obtain r where
    loop: "upload_ranges_loop env (s1\<lparr>upload_regions := []\<rparr>) VK_NULL_HANDLE rs = Some r"
    by (cases "upload_ranges_loop env (s1\<lparr>upload_regions := []\<rparr>) VK_NULL_HANDLE rs")
       (simp_all add: UploadRanges_def upload_span_def Let_def)
  from assms use loop obtain successful s2 prev where r: "r = Inr (successful, s2, prev)"
    by (cases r) (auto simp: UploadRanges_def upload_span_def Let_def)
  from assms use loop r have "ok = successful" "s' = final_flush s2 prev"
    by (auto simp: UploadRanges_def upload_span_def Let_def final_flush_def split: if_splits)
  with that use loop r show ?thesis by blast
qed


lemma is_barrier_request_event [simp]: "\<not> is_barrier (request_event env len a)"
  by (simp add: request_event_def)

lemma Use_frame:
  assumes "Use env s usage written_range = Inr s1"
  shows "buffer s1 = buffer s" "upload_regions s1 = upload_regions s"
    "upload_buffer_pool s1 = upload_buffer_pool s" "last_usage s1 = usage"
    "last_written_range s1 = clip_written_range env written_range"
    "\<exists>emitted. events s1 = events s @ emitted \<and> length emitted \<le> 1 \<and>
       filter is_barrier emitted = emitted"
  using assms
  by (auto simp: Use_def Let_def split: prod.splits if_splits)

lemma barriers_only:
  assumes "filter is_barrier es = es"
  shows "memory_reads es = []" "pool_answers es = []" "granted es = []"
    "memcpy_sources es = []" "copy_commands es = []" "staged_chunks es = []"
proof -
  have all: "\<forall>e \<in> set es. is_barrier e"
    using assms by (metis filter_id_conv)
  have "memory_read_of e = [] \<and> pool_answer_of e = [] \<and> memcpy_of e = [] \<and>
        copy_command_of e = []" if "is_barrier e" for e
    using that by (cases e) simp_all
  with all show "memory_reads es = []" "pool_answers es = []"
    "memcpy_sources es = []" "copy_commands es = []"
    by (simp_all add: memory_reads_def pool_answers_def memcpy_sources_def copy_commands_def)
  then show "granted es = []" by (simp add: granted_def)
  then show "staged_chunks es = []" by simp
qed

lemma UploadRanges_events:
  assumes "UploadRanges env s rs = Some (Inr (ok, s'))" "rs \<noteq> []"
  shows "\<exists>s1 new. Use env s kTransferDestination (upload_span env rs) = Inr s1 \<and>
     events s' = events s1 @ new \<and> buffer s' = buffer s1 \<and>
     last_usage s' = last_usage s1 \<and> last_written_range s' = last_written_range s1 \<and>
     upload_regions s' = [] \<and>
     filter is_barrier new = [] \<and>
     length (granted new) = length (memcpy_sources new) \<and>
     map (\<lambda>(src, dst, regions). (src, regions)) (copy_commands new) =
       runs (staged_chunks new) \<and>
     (\<forall>c \<in> set (copy_commands new). fst (snd c) = buffer s1) \<and>
     (if ok then pool_answers new = granted new
      else \<exists>pre a len post. new = pre @ [request_event env len a] @ post \<and>
             upload_buffer_mapping a = nullptr \<and> pool_answers pre = granted pre \<and>
             (post = [] \<or> (\<exists>src regions. post = [CmdVkCopyBuffer src (buffer s1) regions])))"
proof -
  from assms obtain s1 s2 prev where
    use: "Use env s kTransferDestination (upload_span env rs) = Inr s1" and
    loop: "upload_ranges_loop env (s1\<lparr>upload_regions := []\<rparr>) VK_NULL_HANDLE rs =
       Some (Inr (ok, s2, prev))" and
    s': "s' = final_flush s2 prev"
    by (rule UploadRanges_returns_cases)
  let ?s0 = "s1\<lparr>upload_regions := []\<rparr>"
  have "staging_inv ?s0 ?s0 VK_NULL_HANDLE"
    by (rule staging_inv_refl) simp
  from upload_ranges_loop_staging [OF loop this]
  have outcome: "if ok then staging_inv ?s0 s2 prev else refused_inv env ?s0 s2 prev" .
  \<comment> \<open>what is known of the state right before the refused request, or at the end\<close>
  obtain mid tail where
    mid: "staging_inv ?s0 mid prev" and
    s2: "events s2 = events mid @ tail" "upload_regions s2 = upload_regions mid"
      "buffer s2 = buffer mid" "last_usage s2 = last_usage mid"
      "last_written_range s2 = last_written_range mid" and
    tail: "if ok then tail = []
           else \<exists>a len. tail = [request_event env len a] \<and> upload_buffer_mapping a = nullptr"
  proof (cases ok)
    case True
    with outcome have "staging_inv ?s0 s2 prev" by simp
    with True that [of s2 "[]"] show ?thesis by simp
  next
    case False
    with outcome have "refused_inv env ?s0 s2 prev" by simp
    then obtain mid a len where refused: "staging_inv ?s0 mid prev"
      "events s2 = events mid @ [request_event env len a]"
      "upload_regions s2 = upload_regions mid" "buffer s2 = buffer mid"
      "last_usage s2 = last_usage mid" "last_written_range s2 = last_written_range mid"
      and null: "upload_buffer_mapping a = nullptr"
      unfolding refused_inv_def by blast
    have "if ok then [request_event env len a] = []
          else \<exists>a' len'. [request_event env len a] = [request_event env len' a'] \<and>
                 upload_buffer_mapping a' = nullptr"
      using False null by auto
    with refused show ?thesis by (rule that [of mid "[request_event env len a]"])
  qed
  from mid obtain new where new: "events mid = events s1 @ new"
    "buffer mid = buffer s1" "last_usage mid = last_usage s1"
    "last_written_range mid = last_written_range s1"
    "filter is_barrier new = []"
    "pool_answers new = granted new"
    "length (granted new) = length (memcpy_sources new)"
    "runs (staged_chunks new) =
       map (\<lambda>(src, dst, regions). (src, regions)) (copy_commands new) @ pending mid prev"
    "\<forall>c \<in> set (copy_commands new). fst (snd c) = buffer s1"
    unfolding staging_inv_def by auto
  have tail_facts: "filter is_barrier tail = []" "granted tail = []" "memcpy_sources tail = []"
    "copy_commands tail = []" "staged_chunks tail = []"
  proof -
    have "tail = [] \<or> (\<exists>a len. tail = [request_event env len a] \<and>
            upload_buffer_mapping a = nullptr)"
      using tail by (cases ok) simp_all
    then show "filter is_barrier tail = []" "granted tail = []" "memcpy_sources tail = []"
      "copy_commands tail = []"
      by (auto simp: granted_def)
    then show "staged_chunks tail = []" by simp
  qed
  define post where "post = (if upload_regions s2 \<noteq> []
     then [CmdVkCopyBuffer prev (buffer s2) (upload_regions s2)] else [])"
  have post_facts: "filter is_barrier post = []" "granted post = []" "memcpy_sources post = []"
    "staged_chunks post = []"
    "map (\<lambda>(src, dst, regions). (src, regions)) (copy_commands post) = pending mid prev"
    "\<forall>c \<in> set (copy_commands post). fst (snd c) = buffer s1"
    by (simp_all add: post_def pending_def s2 new)
  have events': "events s' = events s1 @ (new @ tail @ post)"
    by (simp add: s' final_flush_def post_def s2 new)
  have staged: "staged_chunks (new @ tail @ post) = staged_chunks new"
    using new(7) tail_facts post_facts by (simp add: staged_chunks_def)
  have "events s' = events s1 @ (new @ tail @ post) \<and> buffer s' = buffer s1 \<and>
     last_usage s' = last_usage s1 \<and> last_written_range s' = last_written_range s1 \<and>
     upload_regions s' = [] \<and>
     filter is_barrier (new @ tail @ post) = [] \<and>
     length (granted (new @ tail @ post)) = length (memcpy_sources (new @ tail @ post)) \<and>
     map (\<lambda>(src, dst, regions). (src, regions)) (copy_commands (new @ tail @ post)) =
       runs (staged_chunks (new @ tail @ post)) \<and>
     (\<forall>c \<in> set (copy_commands (new @ tail @ post)). fst (snd c) = buffer s1)"
    using events' new tail_facts post_facts staged
    by (auto simp: s' final_flush_def s2)
  moreover have "if ok then pool_answers (new @ tail @ post) = granted (new @ tail @ post)
      else \<exists>pre a len post'. new @ tail @ post = pre @ [request_event env len a] @ post' \<and>
             upload_buffer_mapping a = nullptr \<and> pool_answers pre = granted pre \<and>
             (post' = [] \<or> (\<exists>src regions. post' = [CmdVkCopyBuffer src (buffer s1) regions]))"
  proof (cases ok)
    case True
    with tail have "tail = []" by simp
    moreover have "pool_answers post = []" by (simp add: post_def)
    ultimately show ?thesis using True new(6) post_facts(2) by simp
  next
    case False
    with tail obtain a len where t: "tail = [request_event env len a]"
      and null: "upload_buffer_mapping a = nullptr" by auto
    have p: "post = [] \<or> (\<exists>src regions. post = [CmdVkCopyBuffer src (buffer s1) regions])"
      by (simp add: post_def s2 new)
    have "new @ tail @ post = new @ [request_event env len a] @ post \<and>
          upload_buffer_mapping a = nullptr \<and> pool_answers new = granted new \<and>
          (post = [] \<or> (\<exists>src regions. post = [CmdVkCopyBuffer src (buffer s1) regions]))"
      using t null new(6) p by simp
    then have "\<exists>pre a len post'. new @ tail @ post = pre @ [request_event env len a] @ post' \<and>
             upload_buffer_mapping a = nullptr \<and> pool_answers pre = granted pre \<and>
             (post' = [] \<or> (\<exists>src regions. post' = [CmdVkCopyBuffer src (buffer s1) regions]))"
      by blast
    with False show ?thesis by simp
  qed
  ultimately show ?thesis using use by blast
qed

section \<open>The example runs, evaluated\<close>

lemmas example_defs =
  example_env_def ready_state_def grant_in_full_def page_pool_def
  VK_NULL_HANDLE_def nullptr_def

lemmas run_defs =
  UploadRanges_def Use_def clip_written_range_def upload_chunks.simps upload_chunk_def Let_def

lemma example_run_in_full:
  "UploadRanges (example_env 0 grant_in_full) (ready_state 0) [(0, 4), (10, 2)] =
     Some (Inr (True,
       (ready_state 0)
         \<lparr>upload_buffer_pool := Some 24576,
          last_written_range := (0, 49152),
          events := in_full_events\<rparr>))"
  by (simp add: run_defs example_defs in_full_events_def)

lemma example_run_after_read:
  "UploadRanges (example_env 0 grant_in_full) ((ready_state 0)\<lparr>last_usage := kRead\<rparr>)
     [(0, 4), (10, 2)] =
     Some (Inr (True,
       (ready_state 0)
         \<lparr>upload_buffer_pool := Some 24576,
          last_written_range := (0, 49152),
          events := read_to_transfer_barrier # in_full_events\<rparr>))"
  by (simp add: run_defs example_defs in_full_events_def read_to_transfer_barrier_def
        GetBarrier_def
        VK_PIPELINE_STAGE_VERTEX_INPUT_BIT_def VK_PIPELINE_STAGE_VERTEX_SHADER_BIT_def
        VK_PIPELINE_STAGE_FRAGMENT_SHADER_BIT_def
        VK_PIPELINE_STAGE_TESSELLATION_EVALUATION_SHADER_BIT_def
        VK_PIPELINE_STAGE_COMPUTE_SHADER_BIT_def VK_PIPELINE_STAGE_TRANSFER_BIT_def
        VK_ACCESS_INDEX_READ_BIT_def VK_ACCESS_SHADER_READ_BIT_def
        VK_ACCESS_TRANSFER_READ_BIT_def VK_ACCESS_TRANSFER_WRITE_BIT_def)

lemma example_run_refused_third:
  "UploadRanges (example_env 0 (page_pool two_then_refuse)) (ready_state 0)
     [(0, 1), (2, 3), (7, 1)] =
     Some (Inr (False,
       (ready_state 0)
         \<lparr>upload_buffer_pool := Some 3,
          last_written_range := (0, 32768),
          events := refused_third_events\<rparr>))"
  by (simp add: run_defs example_defs two_then_refuse_def refused_third_events_def)

lemma example_run_two_buffers:
  "UploadRanges (example_env 0 (page_pool two_then_other)) (ready_state 0)
     [(0, 1), (2, 3), (7, 1)] =
     Some (Inr (True,
       (ready_state 0)
         \<lparr>upload_buffer_pool := Some 5,
          last_written_range := (0, 32768),
          events := two_buffers_events\<rparr>))"
  by (simp add: run_defs example_defs two_then_other_def two_buffers_events_def)

lemma example_run_refused_first:
  "UploadRanges (example_env 0 (page_pool refuse_all)) (ready_state 0) [(0, 1), (2, 1)] =
     Some (Inr (False,
       (ready_state 0)
         \<lparr>upload_buffer_pool := Some 1,
          last_written_range := (0, 12288),
          events := refused_first_events\<rparr>))"
  by (simp add: run_defs example_defs refuse_all_def refused_first_events_def)

lemma example_projections:
  "map fst (staged_chunks two_buffers_events) = [7, 7, 8, 8, 8]"
  "map (\<lambda>(src, dst, regions). (src, dst, length regions)) (copy_commands two_buffers_events) =
     [(7, 0xB0, 2), (8, 0xB0, 3)]"
  "memory_reads refused_first_events = [(0, 4096)]"
  "memory_reads two_buffers_events = [(0, 4096), (8192, 12288), (28672, 4096)]"
  "memory_reads refused_third_events = [(0, 4096), (8192, 12288)]"
  "map upload_buffer_mapping (pool_answers refused_third_events) = [0x10000, 0x11000, 0]"
  "map (\<lambda>(src, dst, regions). (src, dst, map dstOffset regions))
     (copy_commands refused_third_events) = [(7, 0xB0, [0, 8192])]"
  "map (\<lambda>(src, dst, regions). map (\<lambda>r. (dstOffset r, copy_size r)) regions)
     (copy_commands in_full_events) = [[(0, 16384), (40960, 8192)]]"
  "filter is_barrier in_full_events = []"
  by (simp_all add: staged_chunks_def granted_def pool_answers_def memcpy_sources_def
        copy_commands_def memory_reads_def nullptr_def
        two_buffers_events_def refused_first_events_def refused_third_events_def
        in_full_events_def)

section \<open>Properties of the upload scheduler\<close>

lemma runs_hd_key: "runs ((k, v) # xs) \<noteq> [] \<and> fst (hd (runs ((k, v) # xs))) = k"
  by (auto split: list.splits)

lemma distinct_adj_runs: "distinct_adj (map fst (runs xs))"
proof (induction xs rule: runs.induct)
  case 1
  show ?case by simp
next
  case (2 k v xs)
  then show ?case
    by (cases "runs xs") (auto split: list.splits)
qed

text \<open>
  Claim C5. In every returning call of \<^verbatim>\<open>UploadRanges\<close> the copy commands recorded
  are, in order, the maximal runs of the staged chunks with the same staging-buffer
  identity: each command copies from the identity of its run and carries all regions of
  the run. Said without \<open>runs\<close>: the regions of the commands, in order, are the regions
  of the chunks, each under its chunk's identity; no two commands in a row copy from the
  same identity; no command is empty; and every command writes to the device buffer.
\<close>

theorem UploadRanges_batches_runs:
  assumes "UploadRanges env s rs = Some (Inr (ok, s'))"
  shows "\<exists>new. events s' = events s @ new \<and>
           map (\<lambda>(src, dst, regions). (src, regions)) (copy_commands new) =
             runs (staged_chunks new) \<and>
           concat (map (\<lambda>(src, dst, regions). map (Pair src) regions) (copy_commands new)) =
             staged_chunks new \<and>
           distinct_adj (map fst (copy_commands new)) \<and>
           (\<forall>(src, dst, regions) \<in> set (copy_commands new). dst = buffer s \<and> regions \<noteq> [])"
proof (cases "rs = []")
  case True
  with assms have "s' = s" by (simp add: UploadRanges_def)
  then show ?thesis by simp
next
  case False
  from UploadRanges_events [OF assms False] obtain s1 new where
    use: "Use env s kTransferDestination (upload_span env rs) = Inr s1" and
    new: "events s' = events s1 @ new"
      "length (granted new) = length (memcpy_sources new)"
      "map (\<lambda>(src, dst, regions). (src, regions)) (copy_commands new) =
         runs (staged_chunks new)"
      "\<forall>c \<in> set (copy_commands new). fst (snd c) = buffer s1"
    by blast
  from Use_frame [OF use] obtain emitted where
    emitted: "events s1 = events s @ emitted" "filter is_barrier emitted = emitted"
    and buffer: "buffer s1 = buffer s"
    by blast
  note quiet = barriers_only [OF emitted(2)]
  let ?all = "emitted @ new"
  let ?p = "\<lambda>(src, dst, regions). (src, regions)"
  have copies: "copy_commands ?all = copy_commands new"
    and staged: "staged_chunks ?all = staged_chunks new"
    using quiet by (simp_all add: staged_chunks_def)
  have runs: "map ?p (copy_commands ?all) = runs (staged_chunks ?all)"
    unfolding copies staged by (rule new(3))
  have "concat (map (\<lambda>(k, vs). map (Pair k) vs) (map ?p (copy_commands ?all))) =
          staged_chunks ?all"
    unfolding runs by (rule concat_runs)
  then have flat: "concat (map (\<lambda>(src, dst, regions). map (Pair src) regions)
                     (copy_commands ?all)) = staged_chunks ?all"
    by (simp add: comp_def case_prod_unfold)
  have "distinct_adj (map fst (map ?p (copy_commands ?all)))"
    unfolding runs by (rule distinct_adj_runs)
  then have adj: "distinct_adj (map fst (copy_commands ?all))"
    by (simp add: comp_def case_prod_unfold)
  have each: "dst = buffer s \<and> regions \<noteq> []"
    if "(src, dst, regions) \<in> set (copy_commands ?all)" for src dst regions
  proof -
    from that have in_new: "(src, dst, regions) \<in> set (copy_commands new)"
      unfolding copies .
    with new(4) buffer have "dst = buffer s" by auto
    moreover from in_new have "(src, regions) \<in> set (map ?p (copy_commands new))"
      by force
    then have "(src, regions) \<in> set (runs (staged_chunks new))"
      by (simp add: new(3))
    then have "regions \<noteq> []" by (rule runs_nonempty)
    ultimately show ?thesis by simp
  qed
  have "events s' = events s @ ?all"
    by (simp add: new(1) emitted(1))
  with runs flat adj each show ?thesis by blast
qed

text \<open>
  The theorem at work: five one-page chunks, two from buffer 7 and three from buffer
  8, give two copy commands, of two and of three regions.
\<close>

theorem UploadRanges_batches_runs_witness:
  "UploadRanges (example_env 0 (page_pool two_then_other)) (ready_state 0)
     [(0, 1), (2, 3), (7, 1)] =
     Some (Inr (True,
       (ready_state 0)
         \<lparr>upload_buffer_pool := Some 5,
          last_written_range := (0, 32768),
          events := two_buffers_events\<rparr>)) \<and>
   map fst (staged_chunks two_buffers_events) = [7, 7, 8, 8, 8] \<and>
   map (\<lambda>(src, dst, regions). (src, dst, length regions)) (copy_commands two_buffers_events) =
     [(7, 0xB0, 2), (8, 0xB0, 3)] \<and>
   map (\<lambda>(src, dst, regions). (src, regions)) (copy_commands two_buffers_events) =
     runs (staged_chunks two_buffers_events)"
proof -
  from UploadRanges_batches_runs [OF example_run_two_buffers] obtain new where
    "events ((ready_state (0 :: nat))
         \<lparr>upload_buffer_pool := Some 5,
          last_written_range := (0, 32768),
          events := two_buffers_events\<rparr>) = events (ready_state (0 :: nat)) @ new"
    and runs: "map (\<lambda>(src, dst, regions). (src, regions)) (copy_commands new) =
             runs (staged_chunks new)"
    by blast
  then have "new = two_buffers_events"
    by (simp add: ready_state_def)
  with runs example_run_two_buffers example_projections(1,2) show ?thesis
    by simp
qed

section \<open>The upload scheduler returns\<close>

text \<open>Sizes and page counts as natural numbers, where nothing wraps.\<close>

lemma unat_push_bit_u32:
  assumes "unat len * 2 ^ n < 2 ^ 32"
  shows "unat (push_bit n len :: u32) = unat len * 2 ^ n"
proof -
  have "unat (push_bit n len :: u32) = take_bit LENGTH(32) (push_bit n (unat len))"
    by (fact unsigned_push_bit_eq)
  also have "\<dots> = take_bit 32 (unat len * 2 ^ n)"
    by (simp add: push_bit_eq_mult)
  also have "\<dots> = unat len * 2 ^ n"
    using assms by (simp add: take_bit_nat_eq_self)
  finally show ?thesis .
qed

lemma unat_ucast_u32_u64: "unat (ucast (w :: u32) :: u64) = unat w"
proof -
  have "unat (ucast w :: u64) = take_bit LENGTH(64) (unat w)"
    by (fact unsigned_ucast_eq)
  moreover have "unat w < 2 ^ 64"
    using unsigned_less [of w, where 'a = nat] by simp
  ultimately show ?thesis by (simp add: take_bit_nat_eq_self)
qed

lemma unat_ucast_u64_u32:
  assumes "unat (w :: u64) < 2 ^ 32"
  shows "unat (ucast w :: u32) = unat w"
proof -
  have "unat (ucast w :: u32) = take_bit LENGTH(32) (unat w)"
    by (fact unsigned_ucast_eq)
  with assms show ?thesis by (simp add: take_bit_nat_eq_self)
qed

lemma unat_request_size:
  assumes "unat len * 2 ^ page_size_log2 env < 2 ^ 32"
  shows "unat (request_size env len) = unat len * 2 ^ page_size_log2 env"
  using assms by (simp add: request_size_def unat_ucast_u32_u64 unat_push_bit_u32)

lemma unat_page:
  assumes "page_size_log2 env < 64"
  shows "unat (push_bit (page_size_log2 env) 1 :: u64) = 2 ^ page_size_log2 env"
proof -
  have "unat (push_bit (page_size_log2 env) 1 :: u64) =
          take_bit LENGTH(64) (push_bit (page_size_log2 env) (unat (1 :: u64)))"
    by (fact unsigned_push_bit_eq)
  also have "\<dots> = take_bit 64 ((2 :: nat) ^ page_size_log2 env)"
    by (simp add: push_bit_eq_mult)
  also have "\<dots> = 2 ^ page_size_log2 env"
    using assms by (simp add: take_bit_nat_eq_self)
  finally show ?thesis .
qed

lemma unat_page_power:
  assumes "page_size_log2 env < 64"
  shows "unat ((2 :: u64) ^ page_size_log2 env) = 2 ^ page_size_log2 env"
  using unat_page [OF assms] by simp

lemma unat_chunk_pages:
  assumes "unat (upload_buffer_size a) < 2 ^ 32"
  shows "unat (chunk_pages env a) = unat (upload_buffer_size a) div 2 ^ page_size_log2 env"
proof -
  have pages: "unat (drop_bit (page_size_log2 env) (upload_buffer_size a)) =
          unat (upload_buffer_size a) div 2 ^ page_size_log2 env"
    unfolding unat_drop_bit_eq by (simp add: drop_bit_eq_div)
  have "unat (upload_buffer_size a) div 2 ^ page_size_log2 env < 2 ^ 32"
    using assms by (meson div_le_dividend le_less_trans)
  with pages have "unat (drop_bit (page_size_log2 env) (upload_buffer_size a)) < 2 ^ 32"
    by simp
  from unat_ucast_u64_u32 [OF this] pages show ?thesis
    by (simp add: chunk_pages_def)
qed


lemma contract_pages:
  assumes contract: "pool_keeps_contract env"
    and page: "page_size_log2 env < 32"
    and bound: "unat len * 2 ^ page_size_log2 env < 2 ^ 32"
    and nonzero: "len \<noteq> 0"
    and answer: "pool_answer env pool len = (a, pool')"
    and granted: "upload_buffer_mapping a \<noteq> nullptr"
  shows "upload_buffer a \<noteq> VK_NULL_HANDLE"
    and "unat (len - chunk_pages env a) < unat len"
proof -
  from answer have a: "a = fst (RequestPartial env pool (GetCurrentSubmission env)
      (request_size env len) (push_bit (page_size_log2 env) 1))"
    by (simp add: pool_answer_def)
  from contract granted have kept: "upload_buffer a \<noteq> VK_NULL_HANDLE"
    "push_bit (page_size_log2 env) 1 \<le> request_size env len \<longrightarrow>
       push_bit (page_size_log2 env) 1 \<le> upload_buffer_size a \<and>
       upload_buffer_size a \<le> request_size env len"
    unfolding pool_keeps_contract_def a Let_def by blast+
  show "upload_buffer a \<noteq> VK_NULL_HANDLE" by (rule kept(1))
  have unat_page: "unat ((2 :: u64) ^ page_size_log2 env) = 2 ^ page_size_log2 env"
    by (rule unat_page_power) (use page in simp)
  have unat_request: "unat (request_size env len) = unat len * 2 ^ page_size_log2 env"
    using bound by (rule unat_request_size)
  from nonzero have "1 \<le> unat len" by (simp add: unat_gt_0 Suc_leI)
  then have "(2 :: nat) ^ page_size_log2 env \<le> unat len * 2 ^ page_size_log2 env"
    by simp
  then have "push_bit (page_size_log2 env) 1 \<le> request_size env len"
    by (simp add: word_le_nat_alt unat_page unat_request)
  with kept(2) have "push_bit (page_size_log2 env) 1 \<le> upload_buffer_size a"
    "upload_buffer_size a \<le> request_size env len" by simp_all
  then have size: "2 ^ page_size_log2 env \<le> unat (upload_buffer_size a)"
    "unat (upload_buffer_size a) \<le> unat len * 2 ^ page_size_log2 env"
    by (simp_all add: word_le_nat_alt unat_page unat_request)
  with bound have "unat (upload_buffer_size a) < 2 ^ 32" by simp
  then have pages: "unat (chunk_pages env a) =
      unat (upload_buffer_size a) div 2 ^ page_size_log2 env"
    by (rule unat_chunk_pages)
  have "1 \<le> unat (upload_buffer_size a) div 2 ^ page_size_log2 env"
    using size(1) by (simp add: Suc_leI div_greater_zero_iff)
  moreover have "unat (upload_buffer_size a) div 2 ^ page_size_log2 env \<le> unat len"
    using div_le_mono [OF size(2), of "2 ^ page_size_log2 env"] by simp
  ultimately have "1 \<le> unat (chunk_pages env a)" "unat (chunk_pages env a) \<le> unat len"
    by (simp_all add: pages)
  then show "unat (len - chunk_pages env a) < unat len"
    by (simp add: unat_sub word_le_nat_alt)
qed


lemma upload_chunks_returns:
  assumes contract: "pool_keeps_contract env" and page: "page_size_log2 env < 32"
  shows "unat len * 2 ^ page_size_log2 env < 2 ^ 32 \<Longrightarrow>
         upload_buffer_pool s \<noteq> None \<Longrightarrow>
         upload_regions s = [] \<or> prev \<noteq> VK_NULL_HANDLE \<Longrightarrow>
         \<exists>ok s' prev'. upload_chunks env s prev start len = Some (Inr (ok, s', prev')) \<and>
           upload_buffer_pool s' \<noteq> None \<and>
           (upload_regions s' = [] \<or> prev' \<noteq> VK_NULL_HANDLE)"
proof (induction "unat len" arbitrary: s prev start len rule: less_induct)
  case less
  show ?case
  proof (cases "len = 0")
    case True
    with less.prems show ?thesis by (auto simp: upload_chunks.simps)
  next
    case nonzero: False
    show ?thesis
    proof (cases rule: upload_chunk_cases [of s env prev start len])
      case no_pool
      with less.prems show ?thesis by simp
    next
      case (refused pool a pool')
      with nonzero less.prems show ?thesis by (auto simp: upload_chunks.simps)
    next
      case (assert pool a pool')
      with less.prems show ?thesis by simp
    next
      case (flush pool a pool')
      note smaller = contract_pages [OF contract page less.prems(1) nonzero flush(2,3)]
      let ?s2 = "s\<lparr>upload_buffer_pool := Some pool',
              events := events s @ chunk_events env start len a @
                [CmdVkCopyBuffer prev (buffer s) (upload_regions s)],
              upload_regions := [chunk_region env start a]\<rparr>"
      let ?len2 = "len - chunk_pages env a"
      have bound2: "unat ?len2 * 2 ^ page_size_log2 env < 2 ^ 32"
        using smaller(2) less.prems(1)
        by (meson le_less_trans less_imp_le_nat mult_le_mono1)
      have "\<exists>ok s' prev'.
          upload_chunks env ?s2 (upload_buffer a) (start + chunk_pages env a) ?len2 =
            Some (Inr (ok, s', prev')) \<and>
          upload_buffer_pool s' \<noteq> None \<and>
          (upload_regions s' = [] \<or> prev' \<noteq> VK_NULL_HANDLE)"
        by (rule less.hyps [OF smaller(2) bound2]) (simp_all add: smaller(1))
      moreover have "upload_chunks env s prev start len =
          upload_chunks env ?s2 (upload_buffer a) (start + chunk_pages env a) ?len2"
        using nonzero flush(7) by (subst upload_chunks.simps) simp
      ultimately show ?thesis by auto
    next
      case (append pool a pool')
      note smaller = contract_pages [OF contract page less.prems(1) nonzero append(2,3)]
      let ?s2 = "s\<lparr>upload_buffer_pool := Some pool',
              events := events s @ chunk_events env start len a,
              upload_regions := upload_regions s @ [chunk_region env start a]\<rparr>"
      let ?len2 = "len - chunk_pages env a"
      have bound2: "unat ?len2 * 2 ^ page_size_log2 env < 2 ^ 32"
        using smaller(2) less.prems(1)
        by (meson le_less_trans less_imp_le_nat mult_le_mono1)
      have "\<exists>ok s' prev'.
          upload_chunks env ?s2 (upload_buffer a) (start + chunk_pages env a) ?len2 =
            Some (Inr (ok, s', prev')) \<and>
          upload_buffer_pool s' \<noteq> None \<and>
          (upload_regions s' = [] \<or> prev' \<noteq> VK_NULL_HANDLE)"
        by (rule less.hyps [OF smaller(2) bound2]) (simp_all add: smaller(1))
      moreover have "upload_chunks env s prev start len =
          upload_chunks env ?s2 (upload_buffer a) (start + chunk_pages env a) ?len2"
        using nonzero append(5) by (subst upload_chunks.simps) simp
      ultimately show ?thesis by auto
    qed
  qed
qed

lemma upload_ranges_loop_returns:
  assumes contract: "pool_keeps_contract env" and page: "page_size_log2 env < 32"
  shows "\<forall>range \<in> set rs. unat (snd range) * 2 ^ page_size_log2 env < 2 ^ 32 \<Longrightarrow>
         upload_buffer_pool s \<noteq> None \<Longrightarrow>
         upload_regions s = [] \<or> prev \<noteq> VK_NULL_HANDLE \<Longrightarrow>
         \<exists>ok s' prev'. upload_ranges_loop env s prev rs = Some (Inr (ok, s', prev')) \<and>
           (upload_regions s' = [] \<or> prev' \<noteq> VK_NULL_HANDLE)"
proof (induction rs arbitrary: s prev)
  case Nil
  then show ?case by auto
next
  case (Cons range rs)
  let ?s1 = "s\<lparr>events := events s @
                [WriteMemoryRead (push_bit (page_size_log2 env) (fst range))
                   (push_bit (page_size_log2 env) (snd range))]\<rparr>"
  from Cons.prems have "unat (snd range) * 2 ^ page_size_log2 env < 2 ^ 32"
    "upload_buffer_pool ?s1 \<noteq> None" "upload_regions ?s1 = [] \<or> prev \<noteq> VK_NULL_HANDLE"
    by simp_all
  from upload_chunks_returns [OF contract page this, of "fst range"]
  obtain ok s2 prev2 where chunks:
    "upload_chunks env ?s1 prev (fst range) (snd range) = Some (Inr (ok, s2, prev2))"
    "upload_buffer_pool s2 \<noteq> None" "upload_regions s2 = [] \<or> prev2 \<noteq> VK_NULL_HANDLE"
    by blast
  show ?case
  proof (cases ok)
    case True
    from Cons.prems(1) have "\<forall>range \<in> set rs. unat (snd range) * 2 ^ page_size_log2 env < 2 ^ 32"
      by simp
    from Cons.IH [OF this chunks(2,3)] chunks(1) True show ?thesis
      by (auto simp: Let_def)
  next
    case False
    with chunks show ?thesis by (auto simp: Let_def)
  qed
qed

lemma Use_transfer_returns:
  "\<exists>s1. Use env s kTransferDestination written_range = Inr s1"
  by (simp add: Use_def Let_def)

lemma UploadRanges_returns:
  assumes contract: "pool_keeps_contract env" and page: "page_size_log2 env < 32"
    and bounds: "\<forall>range \<in> set rs. unat (snd range) * 2 ^ page_size_log2 env < 2 ^ 32"
    and pool: "rs \<noteq> [] \<longrightarrow> upload_buffer_pool s \<noteq> None"
  shows "\<exists>ok s'. UploadRanges env s rs = Some (Inr (ok, s'))"
proof (cases "rs = []")
  case True
  then show ?thesis by (auto simp: UploadRanges_def)
next
  case False
  obtain s1 where use: "Use env s kTransferDestination (upload_span env rs) = Inr s1"
    using Use_transfer_returns by blast
  let ?s0 = "s1\<lparr>upload_regions := []\<rparr>"
  from pool False Use_frame(3) [OF use] have "upload_buffer_pool ?s0 \<noteq> None" by simp
  moreover have "upload_regions ?s0 = [] \<or> VK_NULL_HANDLE \<noteq> VK_NULL_HANDLE" by simp
  ultimately obtain ok s2 prev where loop:
    "upload_ranges_loop env ?s0 VK_NULL_HANDLE rs = Some (Inr (ok, s2, prev))"
    "upload_regions s2 = [] \<or> prev \<noteq> VK_NULL_HANDLE"
    using upload_ranges_loop_returns [OF contract page bounds] by blast
  with use False show ?thesis
    by (auto simp: UploadRanges_def upload_span_def Let_def)
qed

lemma projections_Cons:
  "memory_reads (e # es) = memory_read_of e @ memory_reads es"
  "pool_answers (e # es) = pool_answer_of e @ pool_answers es"
  "memcpy_sources (e # es) = memcpy_of e @ memcpy_sources es"
  "copy_commands (e # es) = copy_command_of e @ copy_commands es"
  by (simp_all add: memory_reads_def pool_answers_def memcpy_sources_def copy_commands_def)

lemma request_event_of:
  "memory_read_of (request_event env len a) = []"
  "pool_answer_of (request_event env len a) = [a]"
  "memcpy_of (request_event env len a) = []"
  "copy_command_of (request_event env len a) = []"
  by (simp_all add: request_event_def)

lemma regions_of_runs:
  "concat (map snd (runs xs)) = map snd xs"
  by (induction xs rule: runs.induct) (auto split: list.splits)

text \<open>
  Claim C6. With a pool that keeps its contract (and ranges that fit 32 bits in bytes),
  \<^verbatim>\<open>UploadRanges\<close> returns, and it returns true exactly when no request was refused.
  When a request is refused, that request is the last one made: after it the call
  records nothing but the one copy command that flushes the regions still pending, so
  the remaining chunks and ranges are abandoned and nothing is retried. Either way,
  every region that was staged is carried by a copy command that was recorded.
\<close>

theorem UploadRanges_after_refusal:
  assumes contract: "pool_keeps_contract env" and page: "page_size_log2 env < 32"
    and bounds: "\<forall>range \<in> set rs. unat (snd range) * 2 ^ page_size_log2 env < 2 ^ 32"
    and pool: "upload_buffer_pool s \<noteq> None"
  shows "\<exists>ok s' new. UploadRanges env s rs = Some (Inr (ok, s')) \<and>
           events s' = events s @ new \<and>
           ok = (pool_answers new = granted new) \<and>
           (\<not> ok \<longrightarrow>
              (\<exists>pre a len post. new = pre @ [request_event env len a] @ post \<and>
                 upload_buffer_mapping a = nullptr \<and> pool_answers pre = granted pre \<and>
                 (post = [] \<or>
                  (\<exists>src regions. post = [CmdVkCopyBuffer src (buffer s) regions])))) \<and>
           concat (map (\<lambda>(src, dst, regions). regions) (copy_commands new)) =
             map snd (staged_chunks new)"
proof -
  from UploadRanges_returns [OF contract page bounds] pool obtain ok s' where
    run: "UploadRanges env s rs = Some (Inr (ok, s'))" by blast
  show ?thesis
  proof (cases "rs = []")
    case True
    with run have "ok" "s' = s" by (simp_all add: UploadRanges_def)
    with run show ?thesis by auto
  next
    case False
    from UploadRanges_events [OF run False] obtain s1 new where
      use: "Use env s kTransferDestination (upload_span env rs) = Inr s1" and
      new: "events s' = events s1 @ new"
        "length (granted new) = length (memcpy_sources new)"
        "map (\<lambda>(src, dst, regions). (src, regions)) (copy_commands new) =
           runs (staged_chunks new)" and
      outcome: "if ok then pool_answers new = granted new
        else \<exists>pre a len post. new = pre @ [request_event env len a] @ post \<and>
               upload_buffer_mapping a = nullptr \<and> pool_answers pre = granted pre \<and>
               (post = [] \<or> (\<exists>src regions. post = [CmdVkCopyBuffer src (buffer s1) regions]))"
      by blast
    from Use_frame [OF use] obtain emitted where
      emitted: "events s1 = events s @ emitted" "filter is_barrier emitted = emitted"
      and buffer: "buffer s1 = buffer s"
      by blast
    note quiet = barriers_only [OF emitted(2)]
    let ?all = "emitted @ new"
    have events: "events s' = events s @ ?all"
      by (simp add: new(1) emitted(1))
    have copies: "copy_commands ?all = copy_commands new"
      and staged: "staged_chunks ?all = staged_chunks new"
      and answers: "pool_answers ?all = pool_answers new" "granted ?all = granted new"
      using quiet by (simp_all add: staged_chunks_def)
    have "concat (map snd (map (\<lambda>(src, dst, regions). (src, regions)) (copy_commands new))) =
            map snd (staged_chunks new)"
      unfolding new(3) by (rule regions_of_runs)
    then have flushed: "concat (map (\<lambda>(src, dst, regions). regions) (copy_commands ?all)) =
            map snd (staged_chunks ?all)"
      unfolding copies staged by (simp add: comp_def case_prod_unfold)
    have result: "ok = (pool_answers ?all = granted ?all)"
    proof (cases ok)
      case True
      with outcome have "pool_answers new = granted new" by simp
      with True show ?thesis unfolding answers by simp
    next
      case False
      with outcome obtain pre a len post where
        "new = pre @ [request_event env len a] @ post" "upload_buffer_mapping a = nullptr"
        by auto
      then have "a \<in> set (pool_answers new)" "\<not> upload_buffer_mapping a \<noteq> nullptr"
        by (simp_all add: projections_Cons request_event_of)
      then have "\<not> (\<forall>x \<in> set (pool_answers new). upload_buffer_mapping x \<noteq> nullptr)"
        by blast
      then have "pool_answers new \<noteq> granted new"
        by (simp add: granted_def filter_id_conv eq_commute [of "pool_answers new"])
      with False show ?thesis unfolding answers by simp
    qed
    have refusal: "\<exists>pre a len post. ?all = pre @ [request_event env len a] @ post \<and>
                 upload_buffer_mapping a = nullptr \<and> pool_answers pre = granted pre \<and>
                 (post = [] \<or>
                  (\<exists>src regions. post = [CmdVkCopyBuffer src (buffer s) regions]))"
      if "\<not> ok"
    proof -
      from that outcome obtain pre a len post where refused:
        "new = pre @ [request_event env len a] @ post" "upload_buffer_mapping a = nullptr"
        "pool_answers pre = granted pre"
        "post = [] \<or> (\<exists>src regions. post = [CmdVkCopyBuffer src (buffer s1) regions])"
        by auto
      have "?all = (emitted @ pre) @ [request_event env len a] @ post"
        by (simp add: refused(1))
      moreover have "pool_answers (emitted @ pre) = granted (emitted @ pre)"
        using quiet refused(3) by simp
      moreover have "post = [] \<or> (\<exists>src regions. post = [CmdVkCopyBuffer src (buffer s) regions])"
        using refused(4) by (simp add: buffer)
      ultimately show ?thesis using refused(2) by blast
    qed
    from run events result refusal flushed show ?thesis by blast
  qed
qed

lemma page_pool_keeps_contract:
  assumes "\<And>n. script n \<noteq> Some VK_NULL_HANDLE"
  shows "pool_keeps_contract (example_env 0 (page_pool script))"
proof -
  have "upload_buffer (fst (page_pool script n submission request alignment)) \<noteq>
          VK_NULL_HANDLE \<and>
        upload_buffer_size (fst (page_pool script n submission request alignment)) = alignment"
    if "upload_buffer_mapping (fst (page_pool script n submission request alignment)) \<noteq>
          nullptr"
    for n submission request alignment
    using that assms [of n]
    by (cases "script n") (simp_all add: page_pool_def)
  then show ?thesis
    by (simp add: pool_keeps_contract_def example_env_def Let_def)
qed

text \<open>
  The theorem at work: a batch of five one-page chunks whose third request is
  refused. The call returns false, the refused request is the last of three, and the
  copy command for the first two chunks is recorded.
\<close>

theorem UploadRanges_after_refusal_witness:
  "pool_keeps_contract (example_env 0 (page_pool two_then_refuse)) \<and>
   UploadRanges (example_env 0 (page_pool two_then_refuse)) (ready_state 0)
     [(0, 1), (2, 3), (7, 1)] =
     Some (Inr (False,
       (ready_state 0)
         \<lparr>upload_buffer_pool := Some 3,
          last_written_range := (0, 32768),
          events := refused_third_events\<rparr>)) \<and>
   map upload_buffer_mapping (pool_answers refused_third_events) = [0x10000, 0x11000, 0] \<and>
   map (\<lambda>(src, dst, regions). (src, dst, map dstOffset regions))
     (copy_commands refused_third_events) = [(7, 0xB0, [0, 8192])] \<and>
   concat (map (\<lambda>(src, dst, regions). regions) (copy_commands refused_third_events)) =
     map snd (staged_chunks refused_third_events)"
proof -
  let ?env = "example_env (0 :: nat) (page_pool two_then_refuse)"
  have contract: "pool_keeps_contract ?env"
    by (rule page_pool_keeps_contract) (simp add: two_then_refuse_def VK_NULL_HANDLE_def)
  have page: "page_size_log2 ?env < 32"
    by (simp add: example_env_def)
  have bounds: "\<forall>range \<in> set [(0, 1), (2, 3), (7, 1 :: u32)] :: (u32 \<times> u32) set.
                  unat (snd range) * 2 ^ page_size_log2 ?env < 2 ^ 32"
    by (simp add: example_env_def)
  have pool: "upload_buffer_pool (ready_state (0 :: nat)) \<noteq> None"
    by (simp add: ready_state_def)
  from UploadRanges_after_refusal [OF contract page bounds pool] obtain ok s' new where
    "UploadRanges ?env (ready_state 0) [(0, 1), (2, 3), (7, 1)] = Some (Inr (ok, s'))"
    "events s' = events (ready_state (0 :: nat)) @ new"
    "concat (map (\<lambda>(src, dst, regions). regions) (copy_commands new)) =
       map snd (staged_chunks new)"
    by blast
  with example_run_refused_third have "new = refused_third_events"
    "concat (map (\<lambda>(src, dst, regions). regions) (copy_commands new)) =
       map snd (staged_chunks new)"
    by (auto simp: ready_state_def)
  with contract example_run_refused_third example_projections(6,7) show ?thesis
    by simp
qed

section \<open>Notification of memory reads\<close>

lemma quiet_since_pass:
  assumes quiet: "quiet_since s0 s"
    and pass: "upload_chunk env s prev start len = Continue s2 prev2 start2 len2"
  shows "quiet_since s0 s2"
proof -
  from quiet obtain new where new: "events s = events s0 @ new" "memory_reads new = []"
    unfolding quiet_since_def by blast
  show ?thesis
  proof (cases rule: upload_chunk_cases [of s env prev start len])
    case no_pool
    with pass show ?thesis by simp
  next
    case (refused pool a pool')
    with pass show ?thesis by simp
  next
    case (assert pool a pool')
    with pass show ?thesis by simp
  next
    case (flush pool a pool')
    with pass have "events s2 = events s0 @ (new @ chunk_events env start len a @
                  [CmdVkCopyBuffer prev (buffer s) (upload_regions s)])"
      using new(1) by auto
    moreover have "memory_reads (new @ chunk_events env start len a @
                  [CmdVkCopyBuffer prev (buffer s) (upload_regions s)]) = []"
      using new(2) by simp
    ultimately show ?thesis unfolding quiet_since_def by blast
  next
    case (append pool a pool')
    with pass have "events s2 = events s0 @ (new @ chunk_events env start len a)"
      using new(1) by auto
    moreover have "memory_reads (new @ chunk_events env start len a) = []"
      using new(2) by simp
    ultimately show ?thesis unfolding quiet_since_def by blast
  qed
qed

lemma quiet_since_break:
  assumes quiet: "quiet_since s0 s"
    and pass: "upload_chunk env s prev start len = Break r"
  shows "\<forall>ok s' prev'. r = Inr (ok, s', prev') \<longrightarrow>
           \<not> ok \<and> (\<exists>pre a len'. events s' = events s0 @ pre @ [request_event env len' a] \<and>
                      memory_reads pre = [] \<and> upload_buffer_mapping a = nullptr)"
proof -
  from quiet obtain new where new: "events s = events s0 @ new" "memory_reads new = []"
    unfolding quiet_since_def by blast
  show ?thesis
  proof (cases rule: upload_chunk_cases [of s env prev start len])
    case no_pool
    with pass show ?thesis by auto
  next
    case (refused pool a pool')
    with pass have "r = Inr (False,
           s\<lparr>upload_buffer_pool := Some pool',
             events := events s @ [request_event env len a]\<rparr>, prev)"
      by simp
    moreover have "events s @ [request_event env len a] =
        events s0 @ new @ [request_event env len a]"
      by (simp add: new(1))
    ultimately show ?thesis using new(2) refused(3) by auto
  next
    case (assert pool a pool')
    with pass show ?thesis by auto
  next
    case (flush pool a pool')
    with pass show ?thesis by simp
  next
    case (append pool a pool')
    with pass show ?thesis by simp
  qed
qed

lemma upload_chunks_reads:
  assumes run: "upload_chunks env s prev start len = Some r"
  shows "(\<exists>s' prev'. r = Inr (True, s', prev') \<and> quiet_since s s') \<or>
         (\<forall>ok s' prev'. r = Inr (ok, s', prev') \<longrightarrow>
            \<not> ok \<and> (\<exists>pre a len'. events s' = events s @ pre @ [request_event env len' a] \<and>
                       memory_reads pre = [] \<and> upload_buffer_mapping a = nullptr))"
proof (rule upload_chunks_rule [OF run, where I = "\<lambda>s' prev'. quiet_since s s'"])
  show "quiet_since s s" by (simp add: quiet_since_def)
  show "quiet_since s s2"
    if "quiet_since s s1" "len \<noteq> 0"
      "upload_chunk env s1 prev start len = Continue s2 prev2 start2 len2"
    for s1 prev start len s2 prev2 start2 len2
    using quiet_since_pass that by blast
  show "\<forall>ok s' prev'. r = Inr (ok, s', prev') \<longrightarrow>
            \<not> ok \<and> (\<exists>pre a len'. events s' = events s @ pre @ [request_event env len' a] \<and>
                       memory_reads pre = [] \<and> upload_buffer_mapping a = nullptr)"
    if "quiet_since s s1" "len \<noteq> 0" "upload_chunk env s1 prev start len = Break r"
    for s1 prev start len r
    using quiet_since_break that by blast
qed

lemma upload_ranges_loop_reads:
  assumes "upload_ranges_loop env s prev rs = Some (Inr (ok, s', prev'))"
  shows "\<exists>k new. events s' = events s @ new \<and> k \<le> length rs \<and>
           memory_reads new = map (notified env) (take k rs) \<and>
           (if ok then k = length rs
            else 0 < k \<and> (\<exists>pre a len. new = pre @ [request_event env len a] \<and>
                            upload_buffer_mapping a = nullptr))"
  using assms
proof (induction rs arbitrary: s prev)
  case Nil
  then have "ok" "s' = s" by simp_all
  then show ?case by simp
next
  case (Cons range rs)
  let ?read = "WriteMemoryRead (push_bit (page_size_log2 env) (fst range))
                   (push_bit (page_size_log2 env) (snd range))"
  let ?s1 = "s\<lparr>events := events s @ [?read]\<rparr>"
  have read: "memory_reads [?read] = [notified env range]"
    by (simp add: notified_def)
  from Cons.prems obtain r where
    chunks: "upload_chunks env ?s1 prev (fst range) (snd range) = Some r"
    by (cases "upload_chunks env ?s1 prev (fst range) (snd range)") (simp_all add: Let_def)
  from Cons.prems chunks obtain successful s2 prev2 where r: "r = Inr (successful, s2, prev2)"
    by (cases r) (auto simp: Let_def)
  note cases = upload_chunks_reads [OF chunks]
  show ?case
  proof (cases successful)
    case True
    with cases r obtain new1 where new1: "events s2 = events ?s1 @ new1" "memory_reads new1 = []"
      unfolding quiet_since_def by auto
    from Cons.prems chunks r True
    have "upload_ranges_loop env s2 prev2 rs = Some (Inr (ok, s', prev'))"
      by (simp add: Let_def)
    from Cons.IH [OF this] obtain k new2 where rest:
      "events s' = events s2 @ new2" "k \<le> length rs"
      "memory_reads new2 = map (notified env) (take k rs)"
      "if ok then k = length rs
       else 0 < k \<and> (\<exists>pre a len. new2 = pre @ [request_event env len a] \<and>
                       upload_buffer_mapping a = nullptr)"
      by blast
    let ?new = "[?read] @ new1 @ new2"
    have "events s' = events s @ ?new"
      by (simp add: rest(1) new1(1))
    moreover have "Suc k \<le> length (range # rs)" using rest(2) by simp
    moreover have "memory_reads ?new = map (notified env) (take (Suc k) (range # rs))"
    proof -
      have "memory_reads ?new = memory_reads [?read] @ memory_reads new1 @ memory_reads new2"
        by (simp only: projections_append)
      then show ?thesis unfolding read new1(2) rest(3) by simp
    qed
    moreover have "if ok then Suc k = length (range # rs)
       else 0 < Suc k \<and> (\<exists>pre a len. ?new = pre @ [request_event env len a] \<and>
                       upload_buffer_mapping a = nullptr)"
    proof (cases ok)
      case True
      with rest(4) show ?thesis by simp
    next
      case False
      with rest(4) obtain pre a len where "new2 = pre @ [request_event env len a]"
        "upload_buffer_mapping a = nullptr" by auto
      then have "?new = ([?read] @ new1 @ pre) @ [request_event env len a] \<and>
                 upload_buffer_mapping a = nullptr" by simp
      then have "\<exists>pre a len. ?new = pre @ [request_event env len a] \<and>
                 upload_buffer_mapping a = nullptr" by blast
      with False show ?thesis by simp
    qed
    ultimately show ?thesis by blast
  next
    case False
    with Cons.prems chunks r have result: "ok = False" "s' = s2"
      by (simp_all add: Let_def)
    from cases r False obtain pre a len where refused:
      "events s2 = events ?s1 @ pre @ [request_event env len a]"
      "memory_reads pre = []" "upload_buffer_mapping a = nullptr"
      by auto
    let ?new = "([?read] @ pre) @ [request_event env len a]"
    have "events s' = events s @ ?new"
      by (simp add: result refused(1))
    moreover have "Suc 0 \<le> length (range # rs)" by simp
    moreover have "memory_reads ?new = map (notified env) (take (Suc 0) (range # rs))"
    proof -
      have "memory_reads ?new =
          (memory_reads [?read] @ memory_reads pre) @ memory_reads [request_event env len a]"
        by (simp only: projections_append)
      then show ?thesis unfolding read refused(2) by simp
    qed
    moreover have "\<exists>pre' a' len'. ?new = pre' @ [request_event env len' a'] \<and>
                       upload_buffer_mapping a' = nullptr"
      using refused(3) by blast
    ultimately show ?thesis using result(1) by (intro exI [of _ "Suc 0"] exI [of _ ?new]) simp
  qed
qed

lemma not_copy_events [simp]:
  "filter (\<lambda>e. \<not> is_copy e) (chunk_events env start len a) = chunk_events env start len a"
  "filter (\<lambda>e. \<not> is_copy e) [request_event env len a] = [request_event env len a]"
  "filter (\<lambda>e. \<not> is_copy e) [CmdVkCopyBuffer src dst regions] = []"
  by (simp_all add: chunk_events_def request_event_def)

lemma not_copy_request_event [simp]: "\<not> is_copy (request_event env len a)"
  by (simp add: request_event_def)

lemma upload_chunks_trace_aux:
  "upload_chunks env s prev start len = Some r \<Longrightarrow>
   \<forall>ok s' prev'. r = Inr (ok, s', prev') \<longrightarrow>
     (\<exists>body. events s' = events s @ body \<and>
        filter (\<lambda>e. \<not> is_copy e) body = staging_trace env start len (pool_answers body) \<and>
        (if ok then range_staged env len (pool_answers body)
         else range_refused env len (pool_answers body)))"
proof (induction rule: upload_chunks_induct)
  case (pass loop env s prev start len r)
  show ?case
  proof (cases "len = 0")
    case True
    with pass.hyps have r: "r = Inr (True, s, prev)" by simp
    show ?thesis
    proof (intro allI impI)
      fix ok s' prev' assume "r = Inr (ok, s', prev')"
      with r have "ok" "s' = s" by simp_all
      with True show "\<exists>body. events s' = events s @ body \<and>
          filter (\<lambda>e. \<not> is_copy e) body = staging_trace env start len (pool_answers body) \<and>
          (if ok then range_staged env len (pool_answers body)
           else range_refused env len (pool_answers body))"
        by (intro exI [of _ "[]"]) simp
    qed
  next
    case nonzero: False
    have one_chunk: ?thesis
      if chunk: "upload_chunk env s prev start len =
                  Continue s2 (upload_buffer a) (start + chunk_pages env a)
                    (len - chunk_pages env a)"
        and events: "events s2 = events s @ chunk_events env start len a @ copy"
        and copy: "filter (\<lambda>e. \<not> is_copy e) copy = []" "pool_answers copy = []"
        and granted: "upload_buffer_mapping a \<noteq> nullptr"
      for s2 a copy
    proof (intro allI impI)
      fix ok s' prev' assume r: "r = Inr (ok, s', prev')"
      from pass.hyps nonzero chunk have
        "loop env s2 (upload_buffer a) (start + chunk_pages env a) (len - chunk_pages env a) =
           Some r"
        by simp
      from pass.IH [OF this] r obtain rest where rest:
        "events s' = events s2 @ rest"
        "filter (\<lambda>e. \<not> is_copy e) rest =
           staging_trace env (start + chunk_pages env a) (len - chunk_pages env a)
             (pool_answers rest)"
        "if ok then range_staged env (len - chunk_pages env a) (pool_answers rest)
         else range_refused env (len - chunk_pages env a) (pool_answers rest)"
        by blast
      let ?body = "(chunk_events env start len a @ copy) @ rest"
      have answers: "pool_answers ?body = a # pool_answers rest"
        by (simp add: copy(2))
      have "events s' = events s @ ?body"
        by (simp add: rest(1) events)
      moreover have "filter (\<lambda>e. \<not> is_copy e) ?body =
          staging_trace env start len (pool_answers ?body)"
        unfolding answers by (simp add: copy(1) rest(2) granted)
      moreover have "if ok then range_staged env len (pool_answers ?body)
          else range_refused env len (pool_answers ?body)"
        unfolding answers using rest(3) nonzero granted by simp
      ultimately show "\<exists>body. events s' = events s @ body \<and>
          filter (\<lambda>e. \<not> is_copy e) body = staging_trace env start len (pool_answers body) \<and>
          (if ok then range_staged env len (pool_answers body)
           else range_refused env len (pool_answers body))"
        by blast
    qed
    show ?thesis
    proof (cases rule: upload_chunk_cases [of s env prev start len])
      case no_pool
      from pass.hyps nonzero no_pool(2) have "r = Inl NullPointerDereference" by simp
      then show ?thesis by simp
    next
      case (refused pool a pool')
      let ?body = "[request_event env len a]"
      from pass.hyps nonzero refused(4) have
        r: "r = Inr (False,
              s\<lparr>upload_buffer_pool := Some pool',
                events := events s @ ?body\<rparr>, prev)"
        by simp
      show ?thesis
      proof (intro allI impI)
        fix ok s' prev' assume "r = Inr (ok, s', prev')"
        with r have "\<not> ok" "events s' = events s @ ?body" by simp_all
        with refused(3) nonzero show "\<exists>body. events s' = events s @ body \<and>
            filter (\<lambda>e. \<not> is_copy e) body = staging_trace env start len (pool_answers body) \<and>
            (if ok then range_staged env len (pool_answers body)
             else range_refused env len (pool_answers body))"
          by (intro exI [of _ ?body]) simp
      qed
    next
      case (assert pool a pool')
      from pass.hyps nonzero assert(8) have "r = Inl AssertionFailed" by simp
      then show ?thesis by simp
    next
      case (flush pool a pool')
      show ?thesis
        by (rule one_chunk [OF flush(7),
              of "[CmdVkCopyBuffer prev (buffer s) (upload_regions s)]"])
           (simp_all add: flush(3))
    next
      case (append pool a pool')
      show ?thesis
        by (rule one_chunk [OF append(5), of "[]"]) (simp_all add: append(3))
    qed
  qed
qed

lemma upload_chunks_trace:
  assumes "upload_chunks env s prev start len = Some (Inr (ok, s', prev'))"
  shows "\<exists>body. events s' = events s @ body \<and>
           filter (\<lambda>e. \<not> is_copy e) body = staging_trace env start len (pool_answers body) \<and>
           (if ok then range_staged env len (pool_answers body)
            else range_refused env len (pool_answers body))"
  using upload_chunks_trace_aux [OF assms] by blast

lemma upload_ranges_loop_blocks:
  assumes "upload_ranges_loop env s prev rs = Some (Inr (ok, s', prev'))"
  shows "\<exists>blocks. events s' = events s @ concat blocks \<and> upload_blocks env rs blocks ok"
  using assms
proof (induction rs arbitrary: s prev)
  case Nil
  then have "ok" "s' = s" by simp_all
  then have "events s' = events s @ concat [] \<and> upload_blocks env [] [] ok" by simp
  then show ?case by blast
next
  case (Cons r rs)
  let ?read = "WriteMemoryRead (push_bit (page_size_log2 env) (fst r))
                   (push_bit (page_size_log2 env) (snd r))"
  let ?s1 = "s\<lparr>events := events s @ [?read]\<rparr>"
  from Cons.prems obtain result where
    chunks: "upload_chunks env ?s1 prev (fst r) (snd r) = Some result"
    by (cases "upload_chunks env ?s1 prev (fst r) (snd r)") (simp_all add: Let_def)
  from Cons.prems chunks obtain successful s2 prev2 where
    result: "result = Inr (successful, s2, prev2)"
    by (cases result) (auto simp: Let_def)
  from upload_chunks_trace [OF chunks [unfolded result]] obtain body where body:
    "events s2 = events ?s1 @ body"
    "filter (\<lambda>e. \<not> is_copy e) body = staging_trace env (fst r) (snd r) (pool_answers body)"
    "if successful then range_staged env (snd r) (pool_answers body)
     else range_refused env (snd r) (pool_answers body)"
    by blast
  have block: "range_block env r successful (?read # body)"
    using body(2,3) by (simp add: range_block_def)
  have events: "events s2 = events s @ ?read # body"
    by (simp add: body(1))
  show ?case
  proof (cases successful)
    case True
    from Cons.prems chunks result True
    have "upload_ranges_loop env s2 prev2 rs = Some (Inr (ok, s', prev'))"
      by (simp add: Let_def)
    from Cons.IH [OF this] obtain blocks where blocks:
      "events s' = events s2 @ concat blocks" "upload_blocks env rs blocks ok"
      by blast
    from blocks(2) have "\<not> (blocks = [] \<and> \<not> ok)" by auto
    with block True blocks(2) have "upload_blocks env (r # rs) ((?read # body) # blocks) ok"
      by auto
    moreover have "events s' = events s @ concat ((?read # body) # blocks)"
      by (simp add: blocks(1) events)
    ultimately show ?thesis by blast
  next
    case False
    with Cons.prems chunks result have "ok = False" "s' = s2"
      by (simp_all add: Let_def)
    with block False events
    have "events s' = events s @ concat [?read # body] \<and>
          upload_blocks env (r # rs) [?read # body] ok"
      by simp
    then show ?thesis by blast
  qed
qed

lemma memory_reads_not_copy:
  "memory_reads (filter (\<lambda>e. \<not> is_copy e) es) = memory_reads es"
proof (induction es)
  case Nil
  show ?case by simp
next
  case (Cons e es)
  then show ?case by (cases e) (simp_all add: projections_Cons)
qed

lemma memory_reads_staging_trace [simp]:
  "memory_reads (staging_trace env start len answers) = []"
  by (induction answers arbitrary: start len) simp_all

lemma range_block_reads:
  assumes "range_block env r complete block"
  shows "memory_reads block = [notified env r]"
proof -
  from assms obtain body where block:
    "block = WriteMemoryRead (push_bit (page_size_log2 env) (fst r))
               (push_bit (page_size_log2 env) (snd r)) # body"
    "filter (\<lambda>e. \<not> is_copy e) body = staging_trace env (fst r) (snd r) (pool_answers body)"
    by (cases block) (simp_all add: range_block_def)
  have "memory_reads body = memory_reads (filter (\<lambda>e. \<not> is_copy e) body)"
    by (simp add: memory_reads_not_copy)
  then have "memory_reads body = []" unfolding block(2) by simp
  then show ?thesis unfolding block(1) by (simp add: projections_Cons notified_def)
qed

lemma upload_blocks_reads:
  "upload_blocks env rs blocks ok \<Longrightarrow>
   length blocks \<le> length rs \<and> (ok \<longrightarrow> length blocks = length rs) \<and>
   (\<not> ok \<longrightarrow> blocks \<noteq> []) \<and>
   memory_reads (concat blocks) = map (notified env) (take (length blocks) rs)"
proof (induction env rs blocks ok rule: upload_blocks.induct)
  case (1 env rs ok)
  then show ?case by simp
next
  case (2 env block blocks ok)
  then show ?case by simp
next
  case (3 env r rs block blocks ok)
  show ?case
  proof (cases "blocks = [] \<and> \<not> ok")
    case True
    with "3.prems" have "range_block env r False block" by simp
    from range_block_reads [OF this] True show ?thesis by simp
  next
    case False
    with "3.prems" have block: "range_block env r True block"
      and rest: "upload_blocks env rs blocks ok" by simp_all
    from "3.IH" [OF False rest] range_block_reads [OF block] show ?thesis by simp
  qed
qed

text \<open>
  Claim C8. What a returning call of \<^verbatim>\<open>UploadRanges\<close> records is the barrier of
  \<^verbatim>\<open>Use\<close>, if any, then one block of events per range for the first ranges of the
  batch, in input order, then at most the final copy command. Each block begins with
  the report of its range to the trace writer (line 213), and the requests to the pool
  that follow in the block are those of that range, at the cursor of that range: so a
  range is reported before any of its chunks is requested, and it is reported even when
  one of its own chunks is refused later. When the call returns true, every range has
  its block and is staged. When the call returns false, the last block is that of the
  range whose request was refused and ends with that request, the blocks before it are
  staged in full, and the ranges after it have no block: they are not reported. The
  reports of the call are thus exactly those of the ranges that have a block.
\<close>

theorem UploadRanges_notifies_up_to_refusal:
  assumes run: "UploadRanges env s rs = Some (Inr (ok, s'))"
  shows "\<exists>emitted blocks post.
           events s' = events s @ emitted @ concat blocks @ post \<and>
           filter is_barrier emitted = emitted \<and> filter is_copy post = post \<and>
           upload_blocks env rs blocks ok \<and>
           length blocks \<le> length rs \<and>
           memory_reads (emitted @ concat blocks @ post) =
             map (notified env) (take (length blocks) rs) \<and>
           (if ok then length blocks = length rs
            else blocks \<noteq> [] \<and>
                 (\<exists>pre a len post'.
                    emitted @ concat blocks @ post = pre @ [request_event env len a] @ post' \<and>
                    upload_buffer_mapping a = nullptr \<and>
                    memory_reads pre = map (notified env) (take (length blocks) rs) \<and>
                    memory_reads post' = []))"
proof (cases "rs = []")
  case True
  with run have "ok" "s' = s" by (simp_all add: UploadRanges_def)
  with True have "events s' = events s @ [] @ concat [] @ [] \<and>
      filter is_barrier [] = [] \<and> filter is_copy [] = [] \<and>
      upload_blocks env rs [] ok \<and> length ([] :: event list list) \<le> length rs \<and>
      memory_reads ([] @ concat [] @ []) = map (notified env) (take (length []) rs) \<and>
      (if ok then length ([] :: event list list) = length rs else False)"
    by simp
  with \<open>ok\<close> show ?thesis by (intro exI [of _ "[]"]) simp
next
  case False
  from run False obtain s1 s2 prev where
    use: "Use env s kTransferDestination (upload_span env rs) = Inr s1" and
    loop: "upload_ranges_loop env (s1\<lparr>upload_regions := []\<rparr>) VK_NULL_HANDLE rs =
       Some (Inr (ok, s2, prev))" and
    s': "s' = final_flush s2 prev"
    by (rule UploadRanges_returns_cases)
  from Use_frame(6) [OF use] obtain emitted where
    emitted: "events s1 = events s @ emitted" "filter is_barrier emitted = emitted"
    by blast
  note quiet = barriers_only(1) [OF emitted(2)]
  from upload_ranges_loop_blocks [OF loop] obtain blocks where blocks:
    "events s2 = events (s1\<lparr>upload_regions := []\<rparr>) @ concat blocks"
    "upload_blocks env rs blocks ok"
    by blast
  from upload_blocks_reads [OF blocks(2)] have count: "length blocks \<le> length rs"
    and all_ranges: "ok \<longrightarrow> length blocks = length rs"
    and some_block: "\<not> ok \<longrightarrow> blocks \<noteq> []"
    and block_reads: "memory_reads (concat blocks) =
      map (notified env) (take (length blocks) rs)"
    by blast+
  from upload_ranges_loop_reads [OF loop] obtain k new where new:
    "events s2 = events (s1\<lparr>upload_regions := []\<rparr>) @ new"
    "if ok then k = length rs
     else 0 < k \<and> (\<exists>pre a len. new = pre @ [request_event env len a] \<and>
                     upload_buffer_mapping a = nullptr)"
    by blast
  from new(1) blocks(1) have same: "new = concat blocks" by simp
  obtain post where post: "events s' = events s2 @ post" "memory_reads post = []"
    "filter is_copy post = post"
  proof (cases "upload_regions s2 = []")
    case True
    then have "events s' = events s2 @ []" by (simp add: s' final_flush_def)
    then show ?thesis using that by simp
  next
    case False
    then have "events s' = events s2 @ [CmdVkCopyBuffer prev (buffer s2) (upload_regions s2)]"
      by (simp add: s' final_flush_def)
    then show ?thesis using that by simp
  qed
  let ?all = "emitted @ concat blocks @ post"
  have events: "events s' = events s @ ?all"
    by (simp add: post(1) blocks(1) emitted(1))
  have reads: "memory_reads ?all = map (notified env) (take (length blocks) rs)"
    by (simp add: quiet post(2) block_reads)
  have outcome: "if ok then length blocks = length rs
     else blocks \<noteq> [] \<and>
          (\<exists>pre a len post'.
             ?all = pre @ [request_event env len a] @ post' \<and>
             upload_buffer_mapping a = nullptr \<and>
             memory_reads pre = map (notified env) (take (length blocks) rs) \<and>
             memory_reads post' = [])"
  proof (cases ok)
    case True
    with all_ranges show ?thesis by simp
  next
    case False
    with new(2) obtain pre a len where refused:
      "new = pre @ [request_event env len a]" "upload_buffer_mapping a = nullptr"
      by auto
    have "memory_reads new = memory_reads pre @ memory_reads [request_event env len a]"
      unfolding refused(1) by (simp only: projections_append)
    then have pre: "memory_reads pre = map (notified env) (take (length blocks) rs)"
      unfolding same block_reads by simp
    have "?all = (emitted @ pre) @ [request_event env len a] @ post"
      using refused(1) same by simp
    moreover have "memory_reads (emitted @ pre) = map (notified env) (take (length blocks) rs)"
      by (simp add: quiet pre)
    ultimately have "\<exists>pre a len post'.
             ?all = pre @ [request_event env len a] @ post' \<and>
             upload_buffer_mapping a = nullptr \<and>
             memory_reads pre = map (notified env) (take (length blocks) rs) \<and>
             memory_reads post' = []"
      using refused(2) post(2) by blast
    with False some_block show ?thesis by simp
  qed
  from events emitted(2) post(3) blocks(2) count reads outcome show ?thesis by blast
qed

text \<open>
  The theorem at work: three ranges, the third request refused while the second range
  is staged. There are two blocks: the first range is reported and staged, the second
  is reported and its block ends with the refused request, the third is not reported.
\<close>

theorem UploadRanges_notifies_up_to_refusal_witness:
  "UploadRanges (example_env 0 (page_pool two_then_refuse)) (ready_state (0 :: nat))
     [(0, 1), (2, 3), (7, 1)] =
     Some (Inr (False,
       (ready_state 0)
         \<lparr>upload_buffer_pool := Some 3,
          last_written_range := (0, 32768),
          events := refused_third_events\<rparr>)) \<and>
   (\<exists>emitted blocks post.
      refused_third_events = emitted @ concat blocks @ post \<and>
      filter is_barrier emitted = emitted \<and> filter is_copy post = post \<and>
      length blocks = 2 \<and>
      upload_blocks (example_env (0 :: nat) (page_pool two_then_refuse))
        [(0, 1), (2, 3), (7, 1)] blocks False) \<and>
   upload_blocks (example_env (0 :: nat) (page_pool two_then_refuse))
     [(0, 1), (2, 3), (7, 1)] refused_third_blocks False \<and>
   refused_third_events =
     concat refused_third_blocks @
     [CmdVkCopyBuffer 7 0xB0
        [\<lparr>srcOffset = 0, dstOffset = 0, copy_size = 4096\<rparr>,
         \<lparr>srcOffset = 4096, dstOffset = 8192, copy_size = 4096\<rparr>]] \<and>
   memory_reads refused_third_events = [(0, 4096), (8192, 12288)]"
proof -
  let ?env = "example_env (0 :: nat) (page_pool two_then_refuse)"
  let ?rs = "[(0, 1), (2, 3), (7, 1)] :: (u32 \<times> u32) list"
  let ?s' = "(ready_state (0 :: nat))
         \<lparr>upload_buffer_pool := Some 3,
          last_written_range := (0, 32768),
          events := refused_third_events\<rparr>"
  from UploadRanges_notifies_up_to_refusal [OF example_run_refused_third]
  obtain emitted blocks post where found:
    "events ?s' = events (ready_state (0 :: nat)) @ emitted @ concat blocks @ post"
    "filter is_barrier emitted = emitted" "filter is_copy post = post"
    "upload_blocks ?env ?rs blocks False"
    "length blocks \<le> length ?rs"
    "memory_reads (emitted @ concat blocks @ post) =
       map (notified ?env) (take (length blocks) ?rs)"
    by auto
  from found(1) have events: "refused_third_events = emitted @ concat blocks @ post"
    by (simp add: ready_state_def)
  from found(6) have "length (memory_reads refused_third_events) =
      length (map (notified ?env) (take (length blocks) ?rs))"
    unfolding events by simp
  then have "min (length blocks) 3 = 2"
    by (simp add: example_projections(5))
  then have two: "length blocks = 2" by (simp add: min_def split: if_splits)
  from events found(2,3,4) two have from_theorem:
    "\<exists>emitted blocks post.
      refused_third_events = emitted @ concat blocks @ post \<and>
      filter is_barrier emitted = emitted \<and> filter is_copy post = post \<and>
      length blocks = 2 \<and> upload_blocks ?env ?rs blocks False"
    by blast
  have evaluated: "upload_blocks ?env ?rs refused_third_blocks False"
    by (simp add: refused_third_blocks_def range_block_def pool_answers_def
          chunk_events_def request_event_def request_size_def chunk_pages_def
          example_env_def nullptr_def)
  have split: "refused_third_events =
     concat refused_third_blocks @
     [CmdVkCopyBuffer 7 0xB0
        [\<lparr>srcOffset = 0, dstOffset = 0, copy_size = 4096\<rparr>,
         \<lparr>srcOffset = 4096, dstOffset = 8192, copy_size = 4096\<rparr>]]"
    by (simp add: refused_third_events_def refused_third_blocks_def)
  from example_run_refused_third from_theorem evaluated split example_projections(5)
  show ?thesis by blast
qed

text \<open>
  Not every range of a batch is reported: with the batch (0, 1), (2, 1) and a pool that
  refuses the first request, the call returns false having reported the first range
  only; the range (2, 1), bytes 8192 to 12288, is never reported.
\<close>

theorem UploadRanges_skips_later_ranges_counterexample:
  "UploadRanges (example_env 0 (page_pool refuse_all)) (ready_state (0 :: nat))
     [(0, 1), (2, 1)] =
     Some (Inr (False,
       (ready_state 0)
         \<lparr>upload_buffer_pool := Some 1,
          last_written_range := (0, 12288),
          events := refused_first_events\<rparr>)) \<and>
   notified (example_env (0 :: nat) (page_pool refuse_all)) (2, 1) = (8192, 4096) \<and>
   notified (example_env (0 :: nat) (page_pool refuse_all)) (2, 1) \<notin>
     set (memory_reads refused_first_events)"
proof -
  have "notified (example_env (0 :: nat) (page_pool refuse_all)) (2, 1) = (8192, 4096)"
    by (simp add: notified_def example_env_def)
  with example_run_refused_first example_projections(3) show ?thesis by simp
qed

section \<open>The one usage transition of an upload and its copy destinations\<close>

lemma barrier_ranges_append [simp]:
  "barrier_ranges (es @ es') = barrier_ranges es @ barrier_ranges es'"
  by (simp add: barrier_ranges_def)

lemma barrier_ranges_none:
  "filter is_barrier es = [] \<Longrightarrow> barrier_ranges es = []"
proof (induction es)
  case Nil
  show ?case by (simp add: barrier_ranges_def)
next
  case (Cons e es)
  then show ?case by (cases e) (simp_all add: barrier_ranges_def split: if_splits)
qed

lemma Use_barrier_ranges:
  assumes "Use env s usage written_range = Inr s1"
  shows "barrier_ranges (events s1) =
           barrier_ranges (events s) @
           (if last_usage s \<noteq> usage then [(0, VK_WHOLE_SIZE)]
            else if snd (last_written_range s) \<noteq> 0
                 then [(ucast (fst (last_written_range s)), ucast (snd (last_written_range s)))]
                 else [])"
  using assms
  by (auto simp: Use_def Let_def barrier_ranges_def split: prod.splits if_splits)

lemma sorted_disjoint_ends:
  "sorted_disjoint (r # rs) \<Longrightarrow>
   \<forall>x \<in> set (r # rs).
     unat (fst r) \<le> unat (fst x) \<and>
     unat (fst x) + unat (snd x) \<le>
       unat (fst (last (r # rs))) + unat (snd (last (r # rs)))"
proof (induction rs arbitrary: r)
  case Nil
  show ?case by simp
next
  case (Cons r' rs)
  from Cons.prems have step: "unat (fst r) + unat (snd r) \<le> unat (fst r')"
    and rest: "sorted_disjoint (r' # rs)" by simp_all
  note ih = Cons.IH [OF rest]
  from ih have r': "unat (fst r') + unat (snd r') \<le>
       unat (fst (last (r' # rs))) + unat (snd (last (r' # rs)))" by simp
  have last: "last (r # r' # rs) = last (r' # rs)" by simp
  show ?case unfolding last
  proof
    fix x assume "x \<in> set (r # r' # rs)"
    then consider "x = r" | "x \<in> set (r' # rs)" by auto
    then show "unat (fst r) \<le> unat (fst x) \<and>
       unat (fst x) + unat (snd x) \<le>
         unat (fst (last (r' # rs))) + unat (snd (last (r' # rs)))"
    proof cases
      case 1
      with step r' show ?thesis by simp
    next
      case 2
      with ih have "unat (fst r') \<le> unat (fst x)"
        "unat (fst x) + unat (snd x) \<le>
           unat (fst (last (r' # rs))) + unat (snd (last (r' # rs)))" by blast+
      with step show ?thesis by simp
    qed
  qed
qed

lemma upload_span_bytes:
  assumes nonempty: "rs \<noteq> []" and sorted: "sorted_disjoint rs"
    and fits: "(unat (fst (last rs)) + unat (snd (last rs))) * 2 ^ page_size_log2 env \<le>
                 unat (kBufferSize env)"
  shows "unat (fst (upload_span env rs)) = unat (fst (hd rs)) * 2 ^ page_size_log2 env"
    and "unat (fst (upload_span env rs)) + unat (snd (upload_span env rs)) =
           (unat (fst (last rs)) + unat (snd (last rs))) * 2 ^ page_size_log2 env"
    and "clip_written_range env (upload_span env rs) = upload_span env rs"
proof -
  let ?l = "page_size_log2 env"
  let ?first = "fst (hd rs)" and ?start = "fst (last rs)" and ?len = "snd (last rs)"
  from nonempty obtain r rs' where rs: "rs = r # rs'" by (cases rs) auto
  from sorted_disjoint_ends [OF sorted [unfolded rs]]
  have "unat (fst r) \<le> unat (fst (last (r # rs')))" by simp
  then have first: "unat ?first \<le> unat ?start" by (simp add: rs)
  have small: "unat (kBufferSize env) < 2 ^ 32"
    using unsigned_less [of "kBufferSize env", where 'a = nat] by simp
  have "unat ?start + unat ?len \<le> (unat ?start + unat ?len) * 2 ^ ?l" by simp
  with fits small have sum: "unat ?start + unat ?len < 2 ^ 32" by linarith
  then have end_pages: "unat (?start + ?len) = unat ?start + unat ?len"
    by (simp add: unat_add_lem [THEN iffD1])
  have le: "?first \<le> ?start + ?len"
    using first by (simp add: word_le_nat_alt end_pages)
  have pages: "unat (?start + ?len - ?first) = unat ?start + unat ?len - unat ?first"
    using le by (simp add: unat_sub end_pages)
  have "unat ?first * 2 ^ ?l \<le> (unat ?start + unat ?len) * 2 ^ ?l"
    using first by simp
  with fits small have first_bound: "unat ?first * 2 ^ ?l < 2 ^ 32" by linarith
  have "(unat ?start + unat ?len - unat ?first) * 2 ^ ?l \<le> (unat ?start + unat ?len) * 2 ^ ?l"
    by simp
  with fits small have "(unat ?start + unat ?len - unat ?first) * 2 ^ ?l < 2 ^ 32" by linarith
  then have length_bound: "unat (?start + ?len - ?first) * 2 ^ ?l < 2 ^ 32"
    by (simp add: pages)
  have fst_span: "unat (fst (upload_span env rs)) = unat ?first * 2 ^ ?l"
    by (simp add: upload_span_def unat_push_bit_u32 [OF first_bound])
  have snd_span: "unat (snd (upload_span env rs)) =
      (unat ?start + unat ?len - unat ?first) * 2 ^ ?l"
    by (simp add: upload_span_def unat_push_bit_u32 [OF length_bound] pages)
  show "unat (fst (upload_span env rs)) = unat ?first * 2 ^ ?l" by (rule fst_span)
  have split: "unat ?first * 2 ^ ?l + (unat ?start + unat ?len - unat ?first) * 2 ^ ?l =
      (unat ?start + unat ?len) * 2 ^ ?l"
    using first by (simp add: add_mult_distrib [symmetric])
  show total: "unat (fst (upload_span env rs)) + unat (snd (upload_span env rs)) =
           (unat ?start + unat ?len) * 2 ^ ?l"
    unfolding fst_span snd_span by (rule split)
  have inside: "fst (upload_span env rs) \<le> kBufferSize env"
    using total fits by (simp add: word_le_nat_alt)
  then have "unat (kBufferSize env - fst (upload_span env rs)) =
      unat (kBufferSize env) - unat (fst (upload_span env rs))"
    by (simp add: unat_sub)
  with total fits have "snd (upload_span env rs) \<le> kBufferSize env - fst (upload_span env rs)"
    by (simp add: word_le_nat_alt)
  with inside show "clip_written_range env (upload_span env rs) = upload_span env rs"
    by (simp add: clip_written_range_def Let_def min_def)
qed


lemma all_granted_in_full_append [simp]:
  "all_granted_in_full (es @ es') = (all_granted_in_full es \<and> all_granted_in_full es')"
  by (simp add: all_granted_in_full_def)

lemma all_granted_in_full_events [simp]:
  "all_granted_in_full []"
  "all_granted_in_full (chunk_events env start len a) =
     (upload_buffer_mapping a \<noteq> nullptr \<and> upload_buffer_size a = request_size env len)"
  "all_granted_in_full [request_event env len a] =
     (upload_buffer_mapping a \<noteq> nullptr \<and> upload_buffer_size a = request_size env len)"
  "all_granted_in_full [CmdVkCopyBuffer src dst regions]"
  "all_granted_in_full [WriteMemoryRead address n]"
  by (simp_all add: all_granted_in_full_def chunk_events_def request_event_def)

lemma upload_chunks_extends:
  assumes "upload_chunks env s prev start len = Some (Inr (ok, s', prev'))"
  shows "\<exists>new. events s' = events s @ new"
proof -
  from upload_chunks_reads [OF assms]
  consider "quiet_since s s'"
    | "\<exists>pre a len'. events s' = events s @ pre @ [request_event env len' a]"
    by auto
  then show ?thesis
  proof cases
    case 1
    then show ?thesis unfolding quiet_since_def by blast
  next
    case 2
    then show ?thesis by blast
  qed
qed

lemma chunk_pages_in_full:
  assumes bound: "unat len * 2 ^ page_size_log2 env < 2 ^ 32"
    and full: "upload_buffer_size a = request_size env len"
  shows "chunk_pages env a = len"
proof -
  have size: "unat (upload_buffer_size a) = unat len * 2 ^ page_size_log2 env"
    unfolding full using bound by (rule unat_request_size)
  with bound have "unat (upload_buffer_size a) < 2 ^ 32" by simp
  then have "unat (chunk_pages env a) = unat (upload_buffer_size a) div 2 ^ page_size_log2 env"
    by (rule unat_chunk_pages)
  then have "unat (chunk_pages env a) = unat len" by (simp add: size)
  then show ?thesis by (simp add: word_unat_eq_iff)
qed

lemma upload_chunks_in_full:
  assumes run: "upload_chunks env s prev start len = Some (Inr (ok, s', prev'))"
    and bound: "unat len * 2 ^ page_size_log2 env < 2 ^ 32"
  shows "\<exists>new. events s' = events s @ new \<and>
           (all_granted_in_full new \<longrightarrow>
              ok \<and>
              map upload_buffer_size (granted new) =
                (if len = 0 then [] else [request_size env len]) \<and>
              memcpy_sources new =
                (if len = 0 then [] else [push_bit (page_size_log2 env) start]))"
proof (cases "len = 0")
  case True
  with run have "ok" "s' = s" by (simp_all add: upload_chunks.simps)
  with True show ?thesis by simp
next
  case nonzero: False
  have one_chunk: ?thesis
    if pass: "upload_chunk env s prev start len =
                Continue s2 (upload_buffer a) (start + chunk_pages env a)
                  (len - chunk_pages env a)"
      and chunk: "events s2 = events s @ chunk_events env start len a @ copy"
      and copy: "all_granted_in_full copy" "granted copy = []" "memcpy_sources copy = []"
      and granted: "upload_buffer_mapping a \<noteq> nullptr"
    for s2 a copy
  proof -
    from run nonzero pass have rest:
      "upload_chunks env s2 (upload_buffer a) (start + chunk_pages env a)
         (len - chunk_pages env a) = Some (Inr (ok, s', prev'))"
      by (simp add: upload_chunks.simps [of env s prev start len])
    from upload_chunks_extends [OF rest] obtain more where
      more: "events s' = events s2 @ more" by blast
    let ?new = "(chunk_events env start len a @ copy) @ more"
    have events: "events s' = events s @ ?new"
      by (simp add: more chunk)
    have "ok \<and> map upload_buffer_size (granted ?new) = [request_size env len] \<and>
          memcpy_sources ?new = [push_bit (page_size_log2 env) start]"
      if full: "all_granted_in_full ?new"
    proof -
      from full have size: "upload_buffer_size a = request_size env len" by simp
      from chunk_pages_in_full [OF bound size] have "len - chunk_pages env a = 0" by simp
      with rest have "ok" "s' = s2" by (simp_all add: upload_chunks.simps)
      with more have "more = []" by simp
      with \<open>ok\<close> granted copy size show ?thesis by simp
    qed
    with events nonzero show ?thesis by (intro exI [of _ ?new]) simp
  qed
  show ?thesis
  proof (cases rule: upload_chunk_cases [of s env prev start len])
    case no_pool
    with run nonzero show ?thesis by (simp add: upload_chunks.simps [of env s prev start len])
  next
    case (refused pool a pool')
    with run nonzero have "s' = s\<lparr>upload_buffer_pool := Some pool',
             events := events s @ [request_event env len a]\<rparr>"
      by (simp add: upload_chunks.simps [of env s prev start len])
    then have "events s' = events s @ [request_event env len a]" by simp
    moreover have "\<not> all_granted_in_full [request_event env len a]"
      using refused(3) by simp
    ultimately show ?thesis by blast
  next
    case (assert pool a pool')
    from run nonzero assert(8) show ?thesis
      by (simp add: upload_chunks.simps [of env s prev start len])
  next
    case (flush pool a pool')
    show ?thesis
      by (rule one_chunk [OF flush(7), of "[CmdVkCopyBuffer prev (buffer s) (upload_regions s)]"])
         (simp_all add: flush(3))
  next
    case (append pool a pool')
    show ?thesis
      by (rule one_chunk [OF append(5), of "[]"]) (simp_all add: append(3))
  qed
qed


lemma upload_ranges_loop_in_full:
  assumes "upload_ranges_loop env s prev rs = Some (Inr (ok, s', prev'))"
    and "\<forall>r \<in> set rs. unat (snd r) * 2 ^ page_size_log2 env < 2 ^ 32"
  shows "\<exists>new. events s' = events s @ new \<and>
           (all_granted_in_full new \<longrightarrow>
              ok \<and>
              map upload_buffer_size (granted new) =
                map (\<lambda>r. request_size env (snd r)) (filter (\<lambda>r. snd r \<noteq> 0) rs) \<and>
              memcpy_sources new =
                map (\<lambda>r. push_bit (page_size_log2 env) (fst r)) (filter (\<lambda>r. snd r \<noteq> 0) rs))"
  using assms
proof (induction rs arbitrary: s prev)
  case Nil
  then have "ok" "s' = s" by simp_all
  then show ?case by simp
next
  case (Cons r rs)
  let ?read = "WriteMemoryRead (push_bit (page_size_log2 env) (fst r))
                   (push_bit (page_size_log2 env) (snd r))"
  let ?s1 = "s\<lparr>events := events s @ [?read]\<rparr>"
  from Cons.prems(2) have bound: "unat (snd r) * 2 ^ page_size_log2 env < 2 ^ 32"
    and bounds: "\<forall>r \<in> set rs. unat (snd r) * 2 ^ page_size_log2 env < 2 ^ 32"
    by simp_all
  from Cons.prems(1) obtain result where
    chunks: "upload_chunks env ?s1 prev (fst r) (snd r) = Some result"
    by (cases "upload_chunks env ?s1 prev (fst r) (snd r)") (simp_all add: Let_def)
  from Cons.prems(1) chunks obtain successful s2 prev2 where
    result: "result = Inr (successful, s2, prev2)"
    by (cases result) (auto simp: Let_def)
  from upload_chunks_in_full [OF chunks [unfolded result] bound] obtain new1 where
    new1: "events s2 = events ?s1 @ new1"
      "all_granted_in_full new1 \<longrightarrow>
         successful \<and>
         map upload_buffer_size (granted new1) =
           (if snd r = 0 then [] else [request_size env (snd r)]) \<and>
         memcpy_sources new1 =
           (if snd r = 0 then [] else [push_bit (page_size_log2 env) (fst r)])"
    by blast
  show ?case
  proof (cases successful)
    case True
    from Cons.prems(1) chunks result True
    have "upload_ranges_loop env s2 prev2 rs = Some (Inr (ok, s', prev'))"
      by (simp add: Let_def)
    from Cons.IH [OF this bounds] obtain new2 where new2:
      "events s' = events s2 @ new2"
      "all_granted_in_full new2 \<longrightarrow>
         ok \<and>
         map upload_buffer_size (granted new2) =
           map (\<lambda>r. request_size env (snd r)) (filter (\<lambda>r. snd r \<noteq> 0) rs) \<and>
         memcpy_sources new2 =
           map (\<lambda>r. push_bit (page_size_log2 env) (fst r)) (filter (\<lambda>r. snd r \<noteq> 0) rs)"
      by blast
    let ?new = "([?read] @ new1) @ new2"
    have events: "events s' = events s @ ?new"
      by (simp add: new2(1) new1(1))
    have granted: "granted ?new = granted new1 @ granted new2"
      and sources: "memcpy_sources ?new = memcpy_sources new1 @ memcpy_sources new2"
      and full: "all_granted_in_full ?new = (all_granted_in_full new1 \<and> all_granted_in_full new2)"
      by (simp_all only: projections_append projections_read all_granted_in_full_append
            all_granted_in_full_events append_Nil simp_thms)
    have "ok \<and>
          map upload_buffer_size (granted ?new) =
            map (\<lambda>r. request_size env (snd r)) (filter (\<lambda>r. snd r \<noteq> 0) (r # rs)) \<and>
          memcpy_sources ?new =
            map (\<lambda>r. push_bit (page_size_log2 env) (fst r)) (filter (\<lambda>r. snd r \<noteq> 0) (r # rs))"
      if "all_granted_in_full ?new"
      using that new1(2) new2(2) unfolding granted sources full by simp
    with events show ?thesis by blast
  next
    case False
    with Cons.prems(1) chunks result have "s' = s2" by (simp add: Let_def)
    then have "events s' = events s @ ([?read] @ new1)"
      by (simp add: new1(1))
    moreover have "\<not> all_granted_in_full ([?read] @ new1)"
      using new1(2) False
      by (simp only: all_granted_in_full_append all_granted_in_full_events simp_thms)
    ultimately show ?thesis by blast
  qed
qed

lemma copy_destinations_regions:
  "copy_destinations es =
     map (\<lambda>region. (unat (dstOffset region), unat (copy_size region)))
       (concat (map (\<lambda>(src, dst, regions). regions) (copy_commands es)))"
  by (simp add: copy_destinations_def map_concat comp_def case_prod_unfold)

lemma staged_destinations:
  assumes "map upload_buffer_size allocations = map f rs" "sources = map g rs"
  shows "map (\<lambda>(a, source). (unat (ucast (source :: u32) :: u64), unat (upload_buffer_size a)))
           (zip allocations sources) =
         map (\<lambda>r. (unat (ucast (g r) :: u64), unat (f r))) rs"
  using assms by (induction rs arbitrary: allocations sources) auto

lemma range_bounds:
  assumes nonempty: "rs \<noteq> []" and sorted: "sorted_disjoint rs"
    and fits: "(unat (fst (last rs)) + unat (snd (last rs))) * 2 ^ page_size_log2 env \<le>
                 unat (kBufferSize env)"
    and member: "r \<in> set rs"
  shows "unat (fst r) * 2 ^ page_size_log2 env < 2 ^ 32"
    and "unat (snd r) * 2 ^ page_size_log2 env < 2 ^ 32"
proof -
  from nonempty obtain r0 rs' where rs: "rs = r0 # rs'" by (cases rs) auto
  from sorted_disjoint_ends [OF sorted [unfolded rs]] member
  have ends: "unat (fst r) + unat (snd r) \<le> unat (fst (last rs)) + unat (snd (last rs))"
    unfolding rs by blast
  have small: "unat (kBufferSize env) < 2 ^ 32"
    using unsigned_less [of "kBufferSize env", where 'a = nat] by simp
  from ends have "(unat (fst r) + unat (snd r)) * 2 ^ page_size_log2 env \<le>
      (unat (fst (last rs)) + unat (snd (last rs))) * 2 ^ page_size_log2 env"
    by (rule mult_le_mono1)
  with fits small have total: "(unat (fst r) + unat (snd r)) * 2 ^ page_size_log2 env < 2 ^ 32"
    by linarith
  have "unat (fst r) * 2 ^ page_size_log2 env \<le>
      (unat (fst r) + unat (snd r)) * 2 ^ page_size_log2 env" by simp
  with total show "unat (fst r) * 2 ^ page_size_log2 env < 2 ^ 32" by linarith
  have "unat (snd r) * 2 ^ page_size_log2 env \<le>
      (unat (fst r) + unat (snd r)) * 2 ^ page_size_log2 env" by simp
  with total show "unat (snd r) * 2 ^ page_size_log2 env < 2 ^ 32" by linarith
qed

text \<open>
  Claim C4. A returning call of \<^verbatim>\<open>UploadRanges\<close> with a non-empty list of sorted,
  disjoint ranges that lie in the buffer begins with one call of \<^verbatim>\<open>Use\<close> for the
  transfer destination usage with the span of the batch, and what follows records no
  barrier and leaves the usage state as that call left it: the usage is transfer
  destination and the written range is the span, which starts at the first range's
  start byte and ends at the last range's end byte. The barrier that this call of
  \<^verbatim>\<open>Use\<close> records is not over the span: it is over the whole buffer when the usage
  changes, over the range written before when that range is not empty, and there is
  none otherwise. The span is the range of the barrier that the next call of \<^verbatim>\<open>Use\<close>
  for the same usage records. When every request of the call is granted in full, the
  call returns true and the copy destinations are, in order, the non-empty ranges in
  bytes.
\<close>

theorem UploadRanges_one_Use_of_span:
  assumes run: "UploadRanges env s rs = Some (Inr (ok, s'))"
    and nonempty: "rs \<noteq> []" and sorted: "sorted_disjoint rs"
    and fits: "(unat (fst (last rs)) + unat (snd (last rs))) * 2 ^ page_size_log2 env \<le>
                 unat (kBufferSize env)"
  shows "\<exists>s1 new.
           Use env s kTransferDestination (upload_span env rs) = Inr s1 \<and>
           events s' = events s1 @ new \<and> barrier_ranges new = [] \<and>
           last_usage s' = kTransferDestination \<and>
           last_written_range s' = upload_span env rs \<and>
           unat (fst (upload_span env rs)) = unat (fst (hd rs)) * 2 ^ page_size_log2 env \<and>
           unat (fst (upload_span env rs)) + unat (snd (upload_span env rs)) =
             (unat (fst (last rs)) + unat (snd (last rs))) * 2 ^ page_size_log2 env \<and>
           barrier_ranges (events s') =
             barrier_ranges (events s) @
             (if last_usage s \<noteq> kTransferDestination then [(0, VK_WHOLE_SIZE)]
              else if snd (last_written_range s) \<noteq> 0
                   then [(ucast (fst (last_written_range s)),
                          ucast (snd (last_written_range s)))]
                   else []) \<and>
           (\<exists>s2. Use env s' kTransferDestination written_range = Inr s2 \<and>
              barrier_ranges (events s2) =
                barrier_ranges (events s') @
                (if snd (upload_span env rs) \<noteq> 0
                 then [(ucast (fst (upload_span env rs)), ucast (snd (upload_span env rs)))]
                 else [])) \<and>
           (all_granted_in_full new \<longrightarrow>
              ok \<and>
              copy_destinations new =
                map (\<lambda>r. (unat (fst r) * 2 ^ page_size_log2 env,
                          unat (snd r) * 2 ^ page_size_log2 env))
                  (filter (\<lambda>r. snd r \<noteq> 0) rs))"
proof -
  let ?l = "page_size_log2 env"
  let ?nonempty = "filter (\<lambda>r. snd r \<noteq> 0) rs"
  from run nonempty obtain s1 s2 prev where
    use: "Use env s kTransferDestination (upload_span env rs) = Inr s1" and
    loop: "upload_ranges_loop env (s1\<lparr>upload_regions := []\<rparr>) VK_NULL_HANDLE rs =
       Some (Inr (ok, s2, prev))" and
    s': "s' = final_flush s2 prev"
    by (rule UploadRanges_returns_cases)
  from UploadRanges_events [OF run nonempty] use obtain new where
    new: "events s' = events s1 @ new" "last_usage s' = last_usage s1"
      "last_written_range s' = last_written_range s1" "filter is_barrier new = []"
      "map (\<lambda>(src, dst, regions). (src, regions)) (copy_commands new) =
         runs (staged_chunks new)"
    by auto
  note span = upload_span_bytes [OF nonempty sorted fits]
  have quiet: "barrier_ranges new = []"
    using new(4) by (rule barrier_ranges_none)
  have usage: "last_usage s' = kTransferDestination"
    using new(2) Use_frame(4) [OF use] by simp
  have written: "last_written_range s' = upload_span env rs"
    using new(3) Use_frame(5) [OF use] span(3) by simp
  have barriers: "barrier_ranges (events s') =
      barrier_ranges (events s) @
      (if last_usage s \<noteq> kTransferDestination then [(0, VK_WHOLE_SIZE)]
       else if snd (last_written_range s) \<noteq> 0
            then [(ucast (fst (last_written_range s)), ucast (snd (last_written_range s)))]
            else [])"
    unfolding new(1) barrier_ranges_append quiet append_Nil2
    by (rule Use_barrier_ranges [OF use])
  have in_full: "ok \<and> copy_destinations new =
      map (\<lambda>r. (unat (fst r) * 2 ^ ?l, unat (snd r) * 2 ^ ?l)) ?nonempty"
    if full: "all_granted_in_full new"
  proof -
    have bounds: "\<forall>r \<in> set rs. unat (snd r) * 2 ^ ?l < 2 ^ 32"
      using range_bounds(2) [OF nonempty sorted fits] by blast
    from upload_ranges_loop_in_full [OF loop bounds] obtain staged where staged:
      "events s2 = events s1 @ staged"
      "all_granted_in_full staged \<longrightarrow>
         ok \<and>
         map upload_buffer_size (granted staged) =
           map (\<lambda>r. request_size env (snd r)) ?nonempty \<and>
         memcpy_sources staged = map (\<lambda>r. push_bit ?l (fst r)) ?nonempty"
      by auto
    obtain post where post: "events s' = events s2 @ post"
      "granted post = []" "memcpy_sources post = []"
    proof (cases "upload_regions s2 = []")
      case True
      then have "events s' = events s2 @ []" by (simp add: s' final_flush_def)
      then show ?thesis using that by simp
    next
      case False
      then have "events s' = events s2 @ [CmdVkCopyBuffer prev (buffer s2) (upload_regions s2)]"
        by (simp add: s' final_flush_def)
      then show ?thesis using that by simp
    qed
    from new(1) post(1) staged(1) have parts: "new = staged @ post" by simp
    from full have "all_granted_in_full staged" unfolding parts by simp
    with staged(2) have ok: "ok"
      and sizes: "map upload_buffer_size (granted staged) =
           map (\<lambda>r. request_size env (snd r)) ?nonempty"
      and sources: "memcpy_sources staged = map (\<lambda>r. push_bit ?l (fst r)) ?nonempty"
      by simp_all
    have granted: "granted new = granted staged"
      and copied: "memcpy_sources new = memcpy_sources staged"
      unfolding parts by (simp_all add: post(2,3))
    have "concat (map snd (map (\<lambda>(src, dst, regions). (src, regions)) (copy_commands new))) =
            map snd (staged_chunks new)"
      unfolding new(5) by (rule regions_of_runs)
    then have regions: "concat (map (\<lambda>(src, dst, regions). regions) (copy_commands new)) =
            map snd (staged_chunks new)"
      by (simp add: comp_def case_prod_unfold)
    have "copy_destinations new =
        map (\<lambda>region. (unat (dstOffset region), unat (copy_size region)))
          (map snd (staged_chunks new))"
      unfolding copy_destinations_regions regions ..
    also have "\<dots> =
        map (\<lambda>(a, source). (unat (ucast (source :: u32) :: u64), unat (upload_buffer_size a)))
          (zip (granted staged) (memcpy_sources staged))"
      unfolding staged_chunks_def granted copied by (simp add: comp_def case_prod_unfold)
    also have "\<dots> =
        map (\<lambda>r. (unat (ucast (push_bit ?l (fst r) :: u32) :: u64),
                  unat (request_size env (snd r)))) ?nonempty"
      using sizes sources by (rule staged_destinations)
    also have "\<dots> = map (\<lambda>r. (unat (fst r) * 2 ^ ?l, unat (snd r) * 2 ^ ?l)) ?nonempty"
    proof (rule map_cong [OF refl])
      fix r assume "r \<in> set ?nonempty"
      then have member: "r \<in> set rs" by simp
      note bound = range_bounds [OF nonempty sorted fits member]
      show "(unat (ucast (push_bit ?l (fst r) :: u32) :: u64), unat (request_size env (snd r))) =
            (unat (fst r) * 2 ^ ?l, unat (snd r) * 2 ^ ?l)"
        by (simp only: unat_ucast_u32_u64 unat_push_bit_u32 [OF bound(1)]
              unat_request_size [OF bound(2)])
    qed
    finally show ?thesis using ok by simp
  qed
  obtain s2 where next_use: "Use env s' kTransferDestination written_range = Inr s2"
    using Use_transfer_returns by blast
  have "barrier_ranges (events s2) =
      barrier_ranges (events s') @
      (if snd (upload_span env rs) \<noteq> 0
       then [(ucast (fst (upload_span env rs)), ucast (snd (upload_span env rs)))]
       else [])"
    using Use_barrier_ranges [OF next_use] usage written by simp
  with next_use have committed:
    "\<exists>s2. Use env s' kTransferDestination written_range = Inr s2 \<and>
       barrier_ranges (events s2) =
         barrier_ranges (events s') @
         (if snd (upload_span env rs) \<noteq> 0
          then [(ucast (fst (upload_span env rs)), ucast (snd (upload_span env rs)))]
          else [])"
    by blast
  from use new(1) quiet usage written span(1,2) barriers committed in_full
  show ?thesis by blast
qed

text \<open>
  The theorem at work: page size 4096, ranges (0, 4) and (10, 2), a pool that grants in
  full. The span is 49152 bytes from 0 and the copy destinations are 16384 bytes at 0
  and 8192 bytes at 40960; the upload itself records no barrier, and the next call of
  \<^verbatim>\<open>Use\<close> for a transfer records the barrier over the span.
\<close>

theorem UploadRanges_one_Use_of_span_witness:
  "UploadRanges (example_env 0 grant_in_full) (ready_state (0 :: nat)) [(0, 4), (10, 2)] =
     Some (Inr (True,
       (ready_state 0)
         \<lparr>upload_buffer_pool := Some 24576,
          last_written_range := (0, 49152),
          events := in_full_events\<rparr>)) \<and>
   sorted_disjoint [(0, 4), (10, 2)] \<and>
   (unat (10 :: u32) + unat (2 :: u32)) *
     2 ^ page_size_log2 (example_env (0 :: nat) grant_in_full) \<le>
     unat (kBufferSize (example_env (0 :: nat) grant_in_full)) \<and>
   all_granted_in_full in_full_events \<and>
   upload_span (example_env (0 :: nat) grant_in_full) [(0, 4), (10, 2)] = (0, 49152) \<and>
   copy_destinations in_full_events = [(0, 16384), (40960, 8192)] \<and>
   barrier_ranges in_full_events = [] \<and>
   (\<exists>s2. Use (example_env (0 :: nat) grant_in_full)
            ((ready_state 0)
               \<lparr>upload_buffer_pool := Some 24576,
                last_written_range := (0, 49152),
                events := in_full_events\<rparr>)
            kTransferDestination (0, 0) = Inr s2 \<and>
         barrier_ranges (events s2) = [(0, 49152)])"
proof -
  let ?env = "example_env (0 :: nat) grant_in_full"
  let ?rs = "[(0, 4), (10, 2)] :: (u32 \<times> u32) list"
  let ?s' = "(ready_state (0 :: nat))
         \<lparr>upload_buffer_pool := Some 24576,
          last_written_range := (0, 49152),
          events := in_full_events\<rparr>"
  have nonempty: "?rs \<noteq> []" by simp
  have sorted: "sorted_disjoint ?rs" by simp
  have fits: "(unat (fst (last ?rs)) + unat (snd (last ?rs))) * 2 ^ page_size_log2 ?env \<le>
                 unat (kBufferSize ?env)"
    by (simp add: example_env_def)
  have span: "upload_span ?env ?rs = (0, 49152)"
    by (simp add: upload_span_def example_env_def)
  have use: "Use ?env (ready_state 0) kTransferDestination (0, 49152) =
      Inr ((ready_state 0)\<lparr>last_written_range := (0, 49152)\<rparr>)"
    by (simp add: Use_def clip_written_range_def Let_def example_env_def ready_state_def)
  have full: "all_granted_in_full in_full_events"
    by (simp add: all_granted_in_full_def in_full_events_def nullptr_def)
  from UploadRanges_one_Use_of_span
         [OF example_run_in_full nonempty sorted fits, of "(0, 0)"]
  obtain s1 new s2 where
    "Use ?env (ready_state 0) kTransferDestination (upload_span ?env ?rs) = Inr s1"
    "events ?s' = events s1 @ new" "barrier_ranges new = []"
    "all_granted_in_full new \<longrightarrow>
       copy_destinations new =
         map (\<lambda>r. (unat (fst r) * 2 ^ page_size_log2 ?env,
                   unat (snd r) * 2 ^ page_size_log2 ?env))
           (filter (\<lambda>r. snd r \<noteq> 0) ?rs)"
    and next_use: "Use ?env ?s' kTransferDestination (0, 0) = Inr s2"
      "barrier_ranges (events s2) =
         barrier_ranges (events ?s') @
         (if snd (upload_span ?env ?rs) \<noteq> 0
          then [(ucast (fst (upload_span ?env ?rs)), ucast (snd (upload_span ?env ?rs)))]
          else [])"
    by blast
  then have "new = in_full_events" "barrier_ranges new = []"
    "all_granted_in_full new \<longrightarrow>
       copy_destinations new =
         map (\<lambda>r. (unat (fst r) * 2 ^ page_size_log2 ?env,
                   unat (snd r) * 2 ^ page_size_log2 ?env))
           (filter (\<lambda>r. snd r \<noteq> 0) ?rs)"
    unfolding span use by (auto simp: ready_state_def)
  with full have quiet: "barrier_ranges in_full_events = []"
    and destinations: "copy_destinations in_full_events = [(0, 16384), (40960, 8192)]"
    by (simp_all add: example_env_def)
  from next_use(2) have "barrier_ranges (events s2) = [(0, 49152)]"
    unfolding span by (simp add: quiet)
  with next_use(1) have committed:
    "\<exists>s2. Use ?env ?s' kTransferDestination (0, 0) = Inr s2 \<and>
       barrier_ranges (events s2) = [(0, 49152)]"
    by blast
  from example_run_in_full sorted fits full span quiet destinations committed
  show ?thesis by simp
qed

text \<open>
  The barrier of that batch does not span the bytes 0 to 49152: when the buffer was
  last read, the one barrier recorded is over the whole buffer
  (\<^verbatim>\<open>VK_WHOLE_SIZE\<close>); when it was last a transfer destination with nothing written,
  no barrier is recorded at all.
\<close>

theorem UploadRanges_barrier_is_not_the_span_counterexample:
  "UploadRanges (example_env 0 grant_in_full) ((ready_state (0 :: nat))\<lparr>last_usage := kRead\<rparr>)
     [(0, 4), (10, 2)] =
     Some (Inr (True,
       (ready_state 0)
         \<lparr>upload_buffer_pool := Some 24576,
          last_written_range := (0, 49152),
          events := read_to_transfer_barrier # in_full_events\<rparr>)) \<and>
   barrier_ranges (read_to_transfer_barrier # in_full_events) = [(0, VK_WHOLE_SIZE)] \<and>
   (0, 49152) \<notin> set (barrier_ranges (read_to_transfer_barrier # in_full_events)) \<and>
   UploadRanges (example_env 0 grant_in_full) (ready_state (0 :: nat)) [(0, 4), (10, 2)] =
     Some (Inr (True,
       (ready_state 0)
         \<lparr>upload_buffer_pool := Some 24576,
          last_written_range := (0, 49152),
          events := in_full_events\<rparr>)) \<and>
   barrier_ranges in_full_events = []"
proof -
  have "barrier_ranges in_full_events = []"
    by (simp add: barrier_ranges_def in_full_events_def)
  moreover from this
  have "barrier_ranges (read_to_transfer_barrier # in_full_events) = [(0, VK_WHOLE_SIZE)]"
    by (simp add: barrier_ranges_def read_to_transfer_barrier_def)
  moreover have "(0, 49152) \<noteq> (0 :: u64, VK_WHOLE_SIZE)"
    by (simp add: VK_WHOLE_SIZE_def)
  ultimately show ?thesis
    using example_run_in_full example_run_after_read by simp
qed

section \<open>The pending copy regions between calls\<close>

lemma Initialize_keeps_upload_regions:
  "upload_regions (snd (Initialize env s)) = upload_regions s"
  by (simp add: Initialize_unfold Let_def Shutdown_fields split: option.split)

lemma UploadRanges_clears_upload_regions:
  assumes "UploadRanges env s rs = Some (Inr (ok, s'))"
  shows "rs \<noteq> [] \<or> upload_regions s = [] \<longrightarrow> upload_regions s' = []"
proof (cases "rs = []")
  case True
  with assms show ?thesis by (simp add: UploadRanges_def)
next
  case False
  with assms obtain s2 prev where "s' = final_flush s2 prev"
    by (rule UploadRanges_returns_cases)
  then show ?thesis by (simp add: final_flush_def)
qed

lemma reachable_no_pending_region:
  "reachable env s \<Longrightarrow> upload_regions s = []"
proof (induction rule: reachable.induct)
  case (after_construction s)
  then show ?case by (simp add: constructed_def)
next
  case (after_Initialize s)
  then show ?case by (simp add: Initialize_keeps_upload_regions)
next
  case (after_Shutdown s from_destructor)
  then show ?case by (simp add: Shutdown_fields)
next
  case (after_Use s usage written_range s')
  then show ?case by (simp add: Use_frame(2))
next
  case (after_UploadRanges s upload_page_ranges successful s')
  then show ?case using UploadRanges_clears_upload_regions by blast
next
  case (after_pool_call s pool pool')
  then show ?case by simp
qed

lemma UploadRanges_flushes_what_it_staged:
  assumes run: "UploadRanges env s rs = Some (Inr (ok, s'))"
  shows "\<exists>new. events s' = events s @ new \<and>
           concat (map (\<lambda>(src, dst, regions). regions) (copy_commands new)) =
             map snd (staged_chunks new)"
proof (cases "rs = []")
  case True
  with run have "s' = s" by (simp add: UploadRanges_def)
  then have "events s' = events s @ []" by simp
  moreover have "concat (map (\<lambda>(src, dst, regions). regions) (copy_commands [])) =
      map snd (staged_chunks [])" by simp
  ultimately show ?thesis by blast
next
  case False
  from UploadRanges_events [OF run False] obtain s1 new where
    use: "Use env s kTransferDestination (upload_span env rs) = Inr s1" and
    new: "events s' = events s1 @ new"
      "map (\<lambda>(src, dst, regions). (src, regions)) (copy_commands new) =
         runs (staged_chunks new)"
    by blast
  from Use_frame(6) [OF use] obtain emitted where
    emitted: "events s1 = events s @ emitted" "filter is_barrier emitted = emitted"
    by blast
  note quiet = barriers_only [OF emitted(2)]
  let ?all = "emitted @ new"
  have events: "events s' = events s @ ?all"
    by (simp add: new(1) emitted(1))
  have copies: "copy_commands ?all = copy_commands new"
    and staged: "staged_chunks ?all = staged_chunks new"
    using quiet by (simp_all add: staged_chunks_def)
  have "concat (map snd (map (\<lambda>(src, dst, regions). (src, regions)) (copy_commands new))) =
          map snd (staged_chunks new)"
    unfolding new(2) by (rule regions_of_runs)
  then have "concat (map (\<lambda>(src, dst, regions). regions) (copy_commands ?all)) =
          map snd (staged_chunks ?all)"
    unfolding copies staged by (simp add: comp_def case_prod_unfold)
  with events show ?thesis by blast
qed

text \<open>
  Claim C10. When \<^verbatim>\<open>UploadRanges\<close> returns, with success or after a refused
  allocation, the list of pending copy regions is empty: after a call with ranges
  whatever the list held at entry, and after any call on an object in a state that
  the member functions can reach from the constructor, in which the list is always
  empty. The list is cleared on entry and flushed before the return: the regions of the
  copy commands that the call records are, in order, exactly the regions of the chunks
  that the call staged, so a region left over from before the call is in none of them
  and every region accumulated in the call is in one. Nothing is carried into a later
  call: the state at the return is again one that can be reached.
\<close>

theorem UploadRanges_leaves_no_pending_region:
  assumes run: "UploadRanges env s rs = Some (Inr (ok, s'))"
  shows "(rs \<noteq> [] \<or> upload_regions s = [] \<longrightarrow> upload_regions s' = []) \<and>
         (reachable env s \<longrightarrow> upload_regions s' = [] \<and> reachable env s') \<and>
         (\<exists>new. events s' = events s @ new \<and>
            concat (map (\<lambda>(src, dst, regions). regions) (copy_commands new)) =
              map snd (staged_chunks new))"
proof -
  note cleared = UploadRanges_clears_upload_regions [OF run]
  have "upload_regions s' = [] \<and> reachable env s'" if before: "reachable env s"
  proof -
    from before run have after: "reachable env s'" by (rule after_UploadRanges)
    then have "upload_regions s' = []" by (rule reachable_no_pending_region)
    with after show ?thesis by blast
  qed
  with cleared UploadRanges_flushes_what_it_staged [OF run] show ?thesis by blast
qed

lemma example_Initialize:
  "Initialize (example_env 0 request) idle_state =
     (True, (ready_state 0)\<lparr>events := initialize_events\<rparr>)"
  by (simp add: Initialize_unfold example_env_def idle_state_def ready_state_def
        initialize_events_def Let_def buffer_usage_bits_def VK_SUCCESS_def VK_NULL_HANDLE_def
        bit_scan_forward_4
        VK_BUFFER_USAGE_TRANSFER_SRC_BIT_def VK_BUFFER_USAGE_TRANSFER_DST_BIT_def
        VK_BUFFER_USAGE_STORAGE_BUFFER_BIT_def VK_BUFFER_USAGE_INDEX_BUFFER_BIT_def)

lemma example_run_after_Initialize:
  "UploadRanges (example_env 0 (page_pool two_then_refuse))
     ((ready_state 0)\<lparr>events := initialize_events\<rparr>) [(0, 1), (2, 3), (7, 1)] =
     Some (Inr (False,
       (ready_state 0)
         \<lparr>upload_buffer_pool := Some 3,
          last_written_range := (0, 32768),
          events := initialize_events @ refused_third_events\<rparr>))"
  by (simp add: run_defs example_defs two_then_refuse_def refused_third_events_def
        initialize_events_def)

lemma example_run_stale_region:
  "UploadRanges (example_env 0 (page_pool two_then_other))
     ((ready_state 0)\<lparr>upload_regions := [stale_region]\<rparr>) [(0, 1), (2, 3), (7, 1)] =
     Some (Inr (True,
       (ready_state 0)
         \<lparr>upload_buffer_pool := Some 5,
          last_written_range := (0, 32768),
          events := two_buffers_events\<rparr>))"
  by (simp add: run_defs example_defs two_then_other_def two_buffers_events_def
        stale_region_def)

text \<open>
  The theorem at work. An object is constructed and initialized, and a batch of five
  one-page chunks is uploaded whose third request is refused: the call returns false
  with no region pending, in a state that can be reached, and the one copy command it
  recorded carries the two regions that were staged. A second upload starts with a
  region left over in the list: that region is in none of the copy commands.
\<close>

theorem UploadRanges_leaves_no_pending_region_witness:
  "constructed idle_state \<and>
   Initialize (example_env 0 (page_pool two_then_refuse)) idle_state =
     (True, (ready_state 0)\<lparr>events := initialize_events\<rparr>) \<and>
   reachable (example_env 0 (page_pool two_then_refuse))
     ((ready_state 0)\<lparr>events := initialize_events\<rparr>) \<and>
   UploadRanges (example_env 0 (page_pool two_then_refuse))
     ((ready_state 0)\<lparr>events := initialize_events\<rparr>) [(0, 1), (2, 3), (7, 1)] =
     Some (Inr (False,
       (ready_state 0)
         \<lparr>upload_buffer_pool := Some 3,
          last_written_range := (0, 32768),
          events := initialize_events @ refused_third_events\<rparr>)) \<and>
   upload_regions
     ((ready_state (0 :: nat))
        \<lparr>upload_buffer_pool := Some 3,
         last_written_range := (0, 32768),
         events := initialize_events @ refused_third_events\<rparr>) = [] \<and>
   reachable (example_env 0 (page_pool two_then_refuse))
     ((ready_state 0)
        \<lparr>upload_buffer_pool := Some 3,
         last_written_range := (0, 32768),
         events := initialize_events @ refused_third_events\<rparr>) \<and>
   concat (map (\<lambda>(src, dst, regions). regions) (copy_commands refused_third_events)) =
     map snd (staged_chunks refused_third_events) \<and>
   map snd (staged_chunks refused_third_events) =
     [\<lparr>srcOffset = 0, dstOffset = 0, copy_size = 4096\<rparr>,
      \<lparr>srcOffset = 4096, dstOffset = 8192, copy_size = 4096\<rparr>] \<and>
   UploadRanges (example_env 0 (page_pool two_then_other))
     ((ready_state 0)\<lparr>upload_regions := [stale_region]\<rparr>) [(0, 1), (2, 3), (7, 1)] =
     Some (Inr (True,
       (ready_state 0)
         \<lparr>upload_buffer_pool := Some 5,
          last_written_range := (0, 32768),
          events := two_buffers_events\<rparr>)) \<and>
   concat (map (\<lambda>(src, dst, regions). regions) (copy_commands two_buffers_events)) =
     map snd (staged_chunks two_buffers_events) \<and>
   length (staged_chunks two_buffers_events) = 5 \<and>
   stale_region \<notin>
     set (concat (map (\<lambda>(src, dst, regions). regions) (copy_commands two_buffers_events)))"
proof -
  let ?env = "example_env (0 :: nat) (page_pool two_then_refuse)"
  let ?ready = "(ready_state (0 :: nat))\<lparr>events := initialize_events\<rparr>"
  let ?after = "(ready_state (0 :: nat))
         \<lparr>upload_buffer_pool := Some 3,
          last_written_range := (0, 32768),
          events := initialize_events @ refused_third_events\<rparr>"
  let ?stale = "(ready_state (0 :: nat))\<lparr>upload_regions := [stale_region]\<rparr>"
  let ?after_stale = "(ready_state (0 :: nat))
         \<lparr>upload_buffer_pool := Some 5,
          last_written_range := (0, 32768),
          events := two_buffers_events\<rparr>"
  have new_object: "constructed idle_state"
    by (simp add: constructed_def idle_state_def)
  then have "reachable ?env idle_state" by (rule after_construction)
  then have "reachable ?env (snd (Initialize ?env idle_state))" by (rule after_Initialize)
  then have ready: "reachable ?env ?ready" by (simp add: example_Initialize)
  note first = UploadRanges_leaves_no_pending_region [OF example_run_after_Initialize]
  from first ready have cleared: "upload_regions ?after = []" and again: "reachable ?env ?after"
    by blast+
  from first obtain new where
    "events ?after = events ?ready @ new"
    "concat (map (\<lambda>(src, dst, regions). regions) (copy_commands new)) =
       map snd (staged_chunks new)"
    by blast
  then have flushed:
    "concat (map (\<lambda>(src, dst, regions). regions) (copy_commands refused_third_events)) =
       map snd (staged_chunks refused_third_events)"
    by simp
  have staged: "map snd (staged_chunks refused_third_events) =
     [\<lparr>srcOffset = 0, dstOffset = 0, copy_size = 4096\<rparr>,
      \<lparr>srcOffset = 4096, dstOffset = 8192, copy_size = 4096\<rparr>]"
    by (simp add: staged_chunks_def granted_def pool_answers_def memcpy_sources_def
          nullptr_def refused_third_events_def)
  note second = UploadRanges_leaves_no_pending_region [OF example_run_stale_region]
  from second obtain new where
    "events ?after_stale = events ?stale @ new"
    "concat (map (\<lambda>(src, dst, regions). regions) (copy_commands new)) =
       map snd (staged_chunks new)"
    by blast
  then have flushed_stale:
    "concat (map (\<lambda>(src, dst, regions). regions) (copy_commands two_buffers_events)) =
       map snd (staged_chunks two_buffers_events)"
    by (simp add: ready_state_def)
  have five: "length (staged_chunks two_buffers_events) = 5"
    by (simp add: staged_chunks_def granted_def pool_answers_def memcpy_sources_def
          nullptr_def two_buffers_events_def)
  have dropped: "stale_region \<notin>
     set (concat (map (\<lambda>(src, dst, regions). regions) (copy_commands two_buffers_events)))"
    by (simp add: copy_commands_def two_buffers_events_def stale_region_def)
  from new_object example_Initialize [of "page_pool two_then_refuse"] ready
    example_run_after_Initialize cleared again flushed staged
    example_run_stale_region flushed_stale five dropped
  show ?thesis by blast
qed

end
